theory Spec2Isabelle
  imports Main "HOL-Library.Word" "HOL-Library.Monad_Syntax" "HOL-Library.Signed_Division"
begin

unbundle bit_operations_syntax

section \<open>Data model of cachesim.c\<close>

text \<open>
  \<^verbatim>\<open>unsigned long\<close> is a 64-bit word (LP64): addresses, tags, ages and the four
  statistics counters wrap around modulo \<open>2 ^ 64\<close>. The \<^verbatim>\<open>int\<close> fields are kept as
  integers; the places where C leaves the behaviour undefined (a shift by an amount
  outside \<open>0..63\<close>, an array access outside the allocated lines, a division by zero,
  a signed overflow) are the value \<open>None\<close> of the model.
\<close>

type_synonym ulong = "64 word"

record CacheLine =
  valid :: int
  tag :: ulong
  age :: ulong

record Cache =
  sets_num :: int
  set_lines :: int
  block_size :: int
  block_bits :: int
  set_bits :: int
  policy :: int
  lines :: "CacheLine list list"
  hits :: ulong
  misses :: ulong
  reads :: ulong
  writes :: ulong

definition POLICY_FIFO :: int where
  "POLICY_FIFO = 0"

definition POLICY_LRU :: int where
  "POLICY_LRU = 1"

definition INT_MAX :: int where
  "INT_MAX = 2147483647"

definition INT_MIN :: int where
  "INT_MIN = - 2147483648"

subsection \<open>Shifts and array accesses, with their undefined cases\<close>

definition shr :: "ulong \<Rightarrow> int \<Rightarrow> ulong option" where
  "shr x n = (if 0 \<le> n \<and> n < 64 then Some (drop_bit (nat n) x) else None)"

definition shl :: "ulong \<Rightarrow> int \<Rightarrow> ulong option" where
  "shl x n = (if 0 \<le> n \<and> n < 64 then Some (push_bit (nat n) x) else None)"

text \<open>\<^verbatim>\<open>cache->lines[set_idx][i]\<close> read: defined only inside the allocated arrays.\<close>

definition line_at :: "Cache \<Rightarrow> ulong \<Rightarrow> int \<Rightarrow> CacheLine option" where
  "line_at c set_idx i =
     (if unat set_idx < length (lines c) \<and> 0 \<le> i \<and> nat i < length (lines c ! unat set_idx)
      then Some (lines c ! unat set_idx ! nat i) else None)"

text \<open>\<^verbatim>\<open>cache->lines[set_idx][i] = l\<close>, used only after \<open>line_at\<close> has succeeded there.\<close>

definition set_line :: "Cache \<Rightarrow> ulong \<Rightarrow> int \<Rightarrow> CacheLine \<Rightarrow> Cache" where
  "set_line c set_idx i l =
     c\<lparr>lines := (lines c)[unat set_idx := (lines c ! unat set_idx)[nat i := l]]\<rparr>"

subsection \<open>Construction\<close>

definition is_power_of_two :: "ulong \<Rightarrow> bool" where
  "is_power_of_two x \<longleftrightarrow> x \<noteq> 0 \<and> x AND (x - 1) = 0"

function log2_loop :: "ulong \<Rightarrow> int \<Rightarrow> int" where
  "log2_loop x count = (if 1 < x then log2_loop (drop_bit 1 x) (count + 1) else count)"
  by pat_completeness auto
termination
proof (relation "measure (\<lambda>(x, count). unat x)")
  show "wf (measure (\<lambda>(x :: ulong, count :: int). unat x))"
    by simp
next
  fix x :: ulong and count :: int
  assume "1 < x"
  then have "0 < unat x"
    by (simp add: word_less_nat_alt)
  moreover have "unat (drop_bit 1 x) = unat x div 2"
    by (simp add: drop_bit_eq_div unat_div)
  ultimately show "((drop_bit 1 x, count + 1), (x, count)) \<in> measure (\<lambda>(x, count). unat x)"
    by simp
qed

definition log2_int :: "ulong \<Rightarrow> int" where
  "log2_int x = log2_loop x 0"

definition empty_line :: CacheLine where
  "empty_line = \<lparr>valid = 0, tag = 0, age = 0\<rparr>"

text \<open>
  \<open>create_cache\<close>: the \<^verbatim>\<open>int\<close> arguments are converted to \<^verbatim>\<open>unsigned long\<close> for
  \<open>log2_int\<close>. \<open>None\<close> stands for no cache being returned: the division by zero, the
  overflow of \<^verbatim>\<open>associativity * block_size\<close> or of the quotient, or an allocation of
  negative size (\<^verbatim>\<open>malloc\<close> fails and the program exits). Allocations of non-negative
  size are taken to succeed.
\<close>

definition create_cache :: "int \<Rightarrow> int \<Rightarrow> int \<Rightarrow> int \<Rightarrow> Cache option" where
  "create_cache cache_size associativity block_sz pol =
     (let d = associativity * block_sz in
      if d = 0 \<or> d < INT_MIN \<or> INT_MAX < d then None
      else
        let n = cache_size sdiv d in
        if INT_MAX < n \<or> n < 0 \<or> (0 < n \<and> associativity < 0) then None
        else Some \<lparr>sets_num = n,
                   set_lines = associativity,
                   block_size = block_sz,
                   block_bits = log2_int (word_of_int block_sz),
                   set_bits = log2_int (word_of_int n),
                   policy = pol,
                   lines = replicate (nat n) (replicate (nat associativity) empty_line),
                   hits = 0, misses = 0, reads = 0, writes = 0\<rparr>)"

subsection \<open>Address decomposition\<close>

definition get_block_id :: "Cache \<Rightarrow> ulong \<Rightarrow> ulong option" where
  "get_block_id c address = shr address (block_bits c)"

definition get_set_index :: "Cache \<Rightarrow> ulong \<Rightarrow> ulong option" where
  "get_set_index c address =
     do {
       block_id \<leftarrow> get_block_id c address;
       mask \<leftarrow> (if set_bits c = 0 then Some 0
                else map_option (\<lambda>p. p - 1) (shl 1 (set_bits c)));
       Some (block_id AND mask)
     }"

definition get_tag :: "Cache \<Rightarrow> ulong \<Rightarrow> ulong option" where
  "get_tag c address =
     (if block_bits c + set_bits c < INT_MIN \<or> INT_MAX < block_bits c + set_bits c then None
      else shr address (block_bits c + set_bits c))"

subsection \<open>Lookup\<close>

function find_line_loop :: "Cache \<Rightarrow> ulong \<Rightarrow> ulong \<Rightarrow> int \<Rightarrow> int option" where
  "find_line_loop c set_idx tg i =
     (if i < set_lines c then
        (case line_at c set_idx i of
           None \<Rightarrow> None
         | Some l \<Rightarrow>
             if valid l \<noteq> 0 \<and> tag l = tg then Some i
             else find_line_loop c set_idx tg (i + 1))
      else Some (- 1))"
  by pat_completeness auto
termination
  by (relation "measure (\<lambda>(c, set_idx, tg, i). nat (set_lines c - i))") auto

text \<open>The pair returned is (line index or \<open>-1\<close>, \<^verbatim>\<open>*set_idx_out\<close>).\<close>

definition find_line :: "Cache \<Rightarrow> ulong \<Rightarrow> (int \<times> ulong) option" where
  "find_line c address =
     do {
       set_idx \<leftarrow> get_set_index c address;
       tg \<leftarrow> get_tag c address;
       i \<leftarrow> find_line_loop c set_idx tg 0;
       Some (i, set_idx)
     }"

subsection \<open>Replacement policy\<close>

text \<open>
  The aging loop, written twice in the source with the same body (lines 145-152 of
  \<open>update_lru_on_access\<close> and lines 181-188 of \<open>load_block\<close>): every valid line of the
  set gets age 0 if it is line \<open>idx\<close> and its age incremented otherwise.
\<close>

function age_loop :: "Cache \<Rightarrow> ulong \<Rightarrow> int \<Rightarrow> int \<Rightarrow> Cache option" where
  "age_loop c set_idx idx i =
     (if i < set_lines c then
        (case line_at c set_idx i of
           None \<Rightarrow> None
         | Some l \<Rightarrow>
             if valid l = 0 then age_loop c set_idx idx (i + 1)
             else if i = idx then age_loop (set_line c set_idx i (l\<lparr>age := 0\<rparr>)) set_idx idx (i + 1)
             else age_loop (set_line c set_idx i (l\<lparr>age := age l + 1\<rparr>)) set_idx idx (i + 1))
      else Some c)"
  by pat_completeness auto
termination
  by (relation "measure (\<lambda>(c, set_idx, idx, i). nat (set_lines c - i))")
    (auto simp: set_line_def)

definition update_lru_on_access :: "Cache \<Rightarrow> ulong \<Rightarrow> int \<Rightarrow> Cache option" where
  "update_lru_on_access c set_idx line_idx =
     (if policy c \<noteq> POLICY_LRU then Some c else age_loop c set_idx line_idx 0)"

text \<open>
  The slot-selection scan of \<open>load_block\<close> (lines 161-174), with its two local
  variables: the first invalid line ends the scan, otherwise a line whose age is at
  least \<open>max_age\<close> becomes the candidate.
\<close>

function select_loop :: "Cache \<Rightarrow> ulong \<Rightarrow> int \<Rightarrow> int \<Rightarrow> ulong \<Rightarrow> int option" where
  "select_loop c set_idx i replace_idx max_age =
     (if i < set_lines c then
        (case line_at c set_idx i of
           None \<Rightarrow> None
         | Some l \<Rightarrow>
             if valid l = 0 then Some i
             else if max_age \<le> age l then select_loop c set_idx (i + 1) i (age l)
             else select_loop c set_idx (i + 1) replace_idx max_age)
      else Some replace_idx)"
  by pat_completeness auto
termination
  by (relation "measure (\<lambda>(c, set_idx, i, replace_idx, max_age). nat (set_lines c - i))") auto

definition load_block :: "Cache \<Rightarrow> ulong \<Rightarrow> Cache option" where
  "load_block c address =
     do {
       set_idx \<leftarrow> get_set_index c address;
       tg \<leftarrow> get_tag c address;
       replace_idx \<leftarrow> select_loop c set_idx 0 (- 1) 0;
       l \<leftarrow> line_at c set_idx replace_idx;
       age_loop (set_line c set_idx replace_idx (l\<lparr>valid := 1, tag := tg\<rparr>)) set_idx replace_idx 0
     }"

subsection \<open>Access protocol\<close>

definition prefetch_next :: "Cache \<Rightarrow> ulong \<Rightarrow> Cache option" where
  "prefetch_next c address =
     do {
       block_id \<leftarrow> get_block_id c address;
       next_address \<leftarrow> shl (block_id + 1) (block_bits c);
       (line_idx, set_idx) \<leftarrow> find_line c next_address;
       if line_idx = - 1 then load_block (c\<lparr>reads := reads c + 1\<rparr>) next_address
       else Some c
     }"

definition simulate_read :: "Cache \<Rightarrow> ulong \<Rightarrow> int \<Rightarrow> Cache option" where
  "simulate_read c address prefetch =
     do {
       (line_idx, set_idx) \<leftarrow> find_line c address;
       if line_idx \<noteq> - 1 then
         update_lru_on_access (c\<lparr>hits := hits c + 1\<rparr>) set_idx line_idx
       else do {
         c1 \<leftarrow> load_block (c\<lparr>misses := misses c + 1, reads := reads c + 1\<rparr>) address;
         if prefetch \<noteq> 0 then prefetch_next c1 address else Some c1
       }
     }"

definition simulate_write :: "Cache \<Rightarrow> ulong \<Rightarrow> int \<Rightarrow> Cache option" where
  "simulate_write c address prefetch =
     do {
       (line_idx, set_idx) \<leftarrow> find_line c address;
       if line_idx \<noteq> - 1 then
         update_lru_on_access (c\<lparr>hits := hits c + 1, writes := writes c + 1\<rparr>) set_idx line_idx
       else do {
         c1 \<leftarrow> load_block (c\<lparr>misses := misses c + 1, reads := reads c + 1\<rparr>) address;
         let c2 = c1\<lparr>writes := writes c1 + 1\<rparr>;
         if prefetch \<noteq> 0 then prefetch_next c2 address else Some c2
       }
     }"

text \<open>
  The trace loop of \<open>main\<close> for one cache: a parsed record is an operation character
  and an address; \<open>R\<close> and \<open>W\<close> are the demand accesses, any other record is skipped.
\<close>

definition access :: "int \<Rightarrow> Cache \<Rightarrow> char \<times> ulong \<Rightarrow> Cache option" where
  "access prefetch c r =
     (if fst r = CHR ''R'' then simulate_read c (snd r) prefetch
      else if fst r = CHR ''W'' then simulate_write c (snd r) prefetch
      else Some c)"

fun run_trace :: "int \<Rightarrow> Cache \<Rightarrow> (char \<times> ulong) list \<Rightarrow> Cache option" where
  "run_trace prefetch c [] = Some c"
| "run_trace prefetch c (r # rs) =
     (case access prefetch c r of None \<Rightarrow> None | Some c' \<Rightarrow> run_trace prefetch c' rs)"

text \<open>
  The checks \<open>main\<close> makes before it constructs a cache, on the values it then passes
  to \<open>create_cache\<close>: cache size and block size are powers of two (the \<^verbatim>\<open>int\<close> is
  converted to \<^verbatim>\<open>unsigned long\<close> for the test); the policy is one of the two
  identifiers (\<^verbatim>\<open>fifo\<close>, \<^verbatim>\<open>lru\<close>); the associativity is 1 (\<^verbatim>\<open>direct\<close>), or
  \<^verbatim>\<open>cache_size / block_size\<close> (\<^verbatim>\<open>assoc\<close>), or a power of two (\<^verbatim>\<open>assoc:n\<close>).
\<close>

definition main_accepts :: "int \<Rightarrow> int \<Rightarrow> int \<Rightarrow> int \<Rightarrow> bool" where
  "main_accepts cache_size associativity block_sz pol \<longleftrightarrow>
     is_power_of_two (word_of_int cache_size) \<and> is_power_of_two (word_of_int block_sz) \<and>
     (pol = POLICY_FIFO \<or> pol = POLICY_LRU) \<and>
     (associativity = 1 \<or> associativity = cache_size sdiv block_sz
        \<or> is_power_of_two (word_of_int associativity))"

text \<open>
  \<open>main\<close> for one of its two caches: the checks, construction, the trace loop, and the
  four numbers \<open>print_stats\<close> prints, in its order (memory reads, memory writes, hits,
  misses). \<open>None\<close> is also the error exit of \<open>main\<close> on arguments it refuses.
\<close>

definition stats :: "Cache \<Rightarrow> ulong \<times> ulong \<times> ulong \<times> ulong" where
  "stats c = (reads c, writes c, hits c, misses c)"

definition simulation ::
  "int \<Rightarrow> int \<Rightarrow> int \<Rightarrow> int \<Rightarrow> int \<Rightarrow> (char \<times> ulong) list
     \<Rightarrow> (ulong \<times> ulong \<times> ulong \<times> ulong) option" where
  "simulation cache_size associativity block_sz pol prefetch trace =
     (if \<not> main_accepts cache_size associativity block_sz pol then None
      else
        case create_cache cache_size associativity block_sz pol of
          None \<Rightarrow> None
        | Some c \<Rightarrow> map_option stats (run_trace prefetch c trace))"

section \<open>Well-formed caches and list views of the loops\<close>

text \<open>
  The shape \<open>create_cache\<close> establishes for a valid geometry: shift amounts inside
  the word, at least one line per set (\<open>set_lines\<close> is an \<^verbatim>\<open>int\<close>), \<open>2 ^ set_bits\<close>
  sets, each an array of \<open>set_lines\<close> lines.
\<close>

definition geometry_ok :: "Cache \<Rightarrow> bool" where
  "geometry_ok c \<longleftrightarrow> 0 \<le> block_bits c \<and> 0 \<le> set_bits c \<and> block_bits c + set_bits c < 64"

definition wf_cache :: "Cache \<Rightarrow> bool" where
  "wf_cache c \<longleftrightarrow>
     geometry_ok c \<and> 1 \<le> set_lines c \<and> set_lines c \<le> INT_MAX \<and>
     sets_num c = int (length (lines c)) \<and>
     length (lines c) = 2 ^ nat (set_bits c) \<and>
     list_all (\<lambda>S. int (length S) = set_lines c) (lines c)"

text \<open>The lines of one set as a list; the loops of the source, read on that list.\<close>

definition the_set :: "Cache \<Rightarrow> ulong \<Rightarrow> CacheLine list" where
  "the_set c set_idx = lines c ! unat set_idx"

definition put_set :: "Cache \<Rightarrow> ulong \<Rightarrow> CacheLine list \<Rightarrow> Cache" where
  "put_set c set_idx S = c\<lparr>lines := (lines c)[unat set_idx := S]\<rparr>"

fun find_list :: "CacheLine list \<Rightarrow> ulong \<Rightarrow> nat \<Rightarrow> int" where
  "find_list [] tg i = - 1"
| "find_list (l # ls) tg i =
     (if valid l \<noteq> 0 \<and> tag l = tg then int i else find_list ls tg (Suc i))"

fun select_list :: "CacheLine list \<Rightarrow> nat \<Rightarrow> int \<Rightarrow> ulong \<Rightarrow> int" where
  "select_list [] i replace_idx max_age = replace_idx"
| "select_list (l # ls) i replace_idx max_age =
     (if valid l = 0 then int i
      else if max_age \<le> age l then select_list ls (Suc i) (int i) (age l)
      else select_list ls (Suc i) replace_idx max_age)"

definition age_line :: "int \<Rightarrow> nat \<Rightarrow> CacheLine \<Rightarrow> CacheLine" where
  "age_line idx j l =
     (if valid l = 0 then l else if int j = idx then l\<lparr>age := 0\<rparr> else l\<lparr>age := age l + 1\<rparr>)"

definition aged_from :: "int \<Rightarrow> nat \<Rightarrow> CacheLine list \<Rightarrow> CacheLine list" where
  "aged_from idx i S = map (\<lambda>j. if i \<le> j then age_line idx j (S ! j) else S ! j) [0..<length S]"

definition victim :: "CacheLine list \<Rightarrow> int" where
  "victim S = select_list S 0 (- 1) 0"

definition load_set :: "ulong \<Rightarrow> CacheLine list \<Rightarrow> CacheLine list" where
  "load_set tg S =
     aged_from (victim S) 0 (S[nat (victim S) := (S ! nat (victim S))\<lparr>valid := 1, tag := tg\<rparr>])"

definition tag_of :: "Cache \<Rightarrow> ulong \<Rightarrow> ulong" where
  "tag_of c address = drop_bit (nat (block_bits c + set_bits c)) address"

definition index_of :: "Cache \<Rightarrow> ulong \<Rightarrow> ulong" where
  "index_of c address = take_bit (nat (set_bits c)) (drop_bit (nat (block_bits c)) address)"

text \<open>The address \<open>prefetch_next\<close> looks up: the start of the following block.\<close>

definition next_address :: "Cache \<Rightarrow> ulong \<Rightarrow> ulong" where
  "next_address c address =
     push_bit (nat (block_bits c)) (drop_bit (nat (block_bits c)) address + 1)"

text \<open>No two valid lines of a set hold the same tag.\<close>

definition set_unique :: "CacheLine list \<Rightarrow> bool" where
  "set_unique S \<longleftrightarrow> distinct (map tag (filter (\<lambda>l. valid l \<noteq> 0) S))"

definition tags_unique :: "Cache \<Rightarrow> bool" where
  "tags_unique c \<longleftrightarrow> list_all set_unique (lines c)"

text \<open>The demand accesses of a trace: the records \<open>main\<close> passes to a simulate function.\<close>

definition is_demand :: "char \<times> ulong \<Rightarrow> bool" where
  "is_demand r \<longleftrightarrow> fst r = CHR ''R'' \<or> fst r = CHR ''W''"

definition demand_count :: "(char \<times> ulong) list \<Rightarrow> nat" where
  "demand_count trace = length (filter is_demand trace)"

text \<open>
  The line indices chosen by the scans of successive \<open>load_block\<close> calls, one per
  address, each call made on the cache the previous one returned.
\<close>

fun load_victims :: "Cache \<Rightarrow> ulong list \<Rightarrow> int list option" where
  "load_victims c [] = Some []"
| "load_victims c (a # as) =
     do {
       set_idx \<leftarrow> get_set_index c a;
       r \<leftarrow> select_loop c set_idx 0 (- 1) 0;
       c' \<leftarrow> load_block c a;
       rs \<leftarrow> load_victims c' as;
       Some (r # rs)
     }"


text \<open>
  Insertion history, kept beside the cache to state the FIFO property: for every set, the
  insertion number at which each line was last loaded, and the number of loads into the
  set so far. The functions below follow the control flow of \<open>prefetch_next\<close>,
  \<open>simulate_read\<close>, \<open>simulate_write\<close> and the trace loop and record every
  \<open>load_block\<close> call; the cache states are those of the functions above.
\<close>

type_synonym history = "(nat list \<times> nat) list"

definition fresh_history :: "Cache \<Rightarrow> history" where
  "fresh_history c = map (\<lambda>S. (replicate (length S) 0, 0)) (lines c)"

definition record_load :: "Cache \<Rightarrow> history \<Rightarrow> ulong \<Rightarrow> history option" where
  "record_load c h address =
     do {
       set_idx \<leftarrow> get_set_index c address;
       replace_idx \<leftarrow> select_loop c set_idx 0 (- 1) 0;
       Some (h[unat set_idx :=
                 ((fst (h ! unat set_idx))[nat replace_idx := snd (h ! unat set_idx)],
                  Suc (snd (h ! unat set_idx)))])
     }"

definition record_prefetch :: "Cache \<Rightarrow> history \<Rightarrow> ulong \<Rightarrow> history option" where
  "record_prefetch c h address =
     do {
       block_id \<leftarrow> get_block_id c address;
       next_address \<leftarrow> shl (block_id + 1) (block_bits c);
       (line_idx, set_idx) \<leftarrow> find_line c next_address;
       if line_idx = - 1 then record_load (c\<lparr>reads := reads c + 1\<rparr>) h next_address
       else Some h
     }"

definition record_read :: "Cache \<Rightarrow> history \<Rightarrow> ulong \<Rightarrow> int \<Rightarrow> history option" where
  "record_read c h address prefetch =
     do {
       (line_idx, set_idx) \<leftarrow> find_line c address;
       if line_idx \<noteq> - 1 then Some h
       else do {
         h1 \<leftarrow> record_load (c\<lparr>misses := misses c + 1, reads := reads c + 1\<rparr>) h address;
         c1 \<leftarrow> load_block (c\<lparr>misses := misses c + 1, reads := reads c + 1\<rparr>) address;
         if prefetch \<noteq> 0 then record_prefetch c1 h1 address else Some h1
       }
     }"

definition record_write :: "Cache \<Rightarrow> history \<Rightarrow> ulong \<Rightarrow> int \<Rightarrow> history option" where
  "record_write c h address prefetch =
     do {
       (line_idx, set_idx) \<leftarrow> find_line c address;
       if line_idx \<noteq> - 1 then Some h
       else do {
         h1 \<leftarrow> record_load (c\<lparr>misses := misses c + 1, reads := reads c + 1\<rparr>) h address;
         c1 \<leftarrow> load_block (c\<lparr>misses := misses c + 1, reads := reads c + 1\<rparr>) address;
         let c2 = c1\<lparr>writes := writes c1 + 1\<rparr>;
         if prefetch \<noteq> 0 then record_prefetch c2 h1 address else Some h1
       }
     }"

definition record_access :: "int \<Rightarrow> Cache \<Rightarrow> history \<Rightarrow> char \<times> ulong \<Rightarrow> history option" where
  "record_access prefetch c h r =
     (if fst r = CHR ''R'' then record_read c h (snd r) prefetch
      else if fst r = CHR ''W'' then record_write c h (snd r) prefetch
      else Some h)"

fun record_trace :: "int \<Rightarrow> Cache \<Rightarrow> history \<Rightarrow> (char \<times> ulong) list \<Rightarrow> history option" where
  "record_trace prefetch c h [] = Some h"
| "record_trace prefetch c h (r # rs) =
     do {
       h' \<leftarrow> record_access prefetch c h r;
       c' \<leftarrow> access prefetch c r;
       record_trace prefetch c' h' rs
     }"

text \<open>
  What the history and the lines of a set have in common in a run without access-time
  aging: the valid lines are the first \<open>k\<close>, their ages are below \<open>k\<close>, the age of a
  valid line is the number of loads into the set after its own, and no two valid lines
  were loaded by the same load.
\<close>

definition set_fifo :: "CacheLine list \<Rightarrow> nat list \<Rightarrow> nat \<Rightarrow> bool" where
  "set_fifo S st n \<longleftrightarrow>
     length st = length S \<and>
     (\<exists>k \<le> length S. (\<forall>i < length S. valid (S ! i) \<noteq> 0 \<longleftrightarrow> i < k)
                        \<and> (\<forall>i < k. unat (age (S ! i)) < k)) \<and>
     (\<forall>i < length S. valid (S ! i) \<noteq> 0 \<longrightarrow> unat (age (S ! i)) + st ! i + 1 = n) \<and>
     (\<forall>i < length S. \<forall>j < length S.
        valid (S ! i) \<noteq> 0 \<and> valid (S ! j) \<noteq> 0 \<and> st ! i = st ! j \<longrightarrow> i = j)"

definition fifo_inv :: "Cache \<Rightarrow> history \<Rightarrow> bool" where
  "fifo_inv c h \<longleftrightarrow>
     length h = length (lines c) \<and>
     (\<forall>s < length (lines c). set_fifo (lines c ! s) (fst (h ! s)) (snd (h ! s)))"

text \<open>
  The valid lines of a set have pairwise different ages, each at least \<open>m\<close> increments
  away from wrapping around.
\<close>

definition set_ages :: "nat \<Rightarrow> CacheLine list \<Rightarrow> bool" where
  "set_ages m S \<longleftrightarrow>
     m < 2 ^ 64 \<and>
     (\<forall>i < length S. valid (S ! i) \<noteq> 0 \<longrightarrow> unat (age (S ! i)) + m < 2 ^ 64) \<and>
     (\<forall>i < length S. \<forall>j < length S.
        valid (S ! i) \<noteq> 0 \<and> valid (S ! j) \<noteq> 0 \<and> age (S ! i) = age (S ! j) \<longrightarrow> i = j)"

definition ages_distinct :: "nat \<Rightarrow> Cache \<Rightarrow> bool" where
  "ages_distinct m c \<longleftrightarrow> (\<forall>S \<in> set (lines c). set_ages m S)"

text \<open>Concrete caches used to instantiate the theorems.\<close>

definition direct_fifo :: Cache where
  "direct_fifo =
     \<lparr>sets_num = 8, set_lines = 1, block_size = 4, block_bits = 2, set_bits = 3,
      policy = POLICY_FIFO, lines = replicate 8 [empty_line],
      hits = 0, misses = 0, reads = 0, writes = 0\<rparr>"

definition assoc_lru :: Cache where
  "assoc_lru =
     \<lparr>sets_num = 1, set_lines = 4, block_size = 4, block_bits = 2, set_bits = 0,
      policy = POLICY_LRU, lines = [replicate 4 empty_line],
      hits = 0, misses = 0, reads = 0, writes = 0\<rparr>"

definition tied_cache :: Cache where
  "tied_cache =
     \<lparr>sets_num = 1, set_lines = 2, block_size = 4, block_bits = 2, set_bits = 0,
      policy = POLICY_FIFO,
      lines = [[\<lparr>valid = 1, tag = 10, age = 5\<rparr>, \<lparr>valid = 1, tag = 11, age = 5\<rparr>]],
      hits = 0, misses = 0, reads = 0, writes = 0\<rparr>"

text \<open>\<open>assoc_lru\<close> after the reads of 0x0, 0x4, 0x8 and 0xC.\<close>

definition warm_lru :: Cache where
  "warm_lru =
     \<lparr>sets_num = 1, set_lines = 4, block_size = 4, block_bits = 2, set_bits = 0,
      policy = POLICY_LRU,
      lines = [[\<lparr>valid = 1, tag = 0, age = 3\<rparr>, \<lparr>valid = 1, tag = 1, age = 2\<rparr>,
                \<lparr>valid = 1, tag = 2, age = 1\<rparr>, \<lparr>valid = 1, tag = 3, age = 0\<rparr>]],
      hits = 0, misses = 4, reads = 4, writes = 0\<rparr>"

definition assoc_fifo :: Cache where
  "assoc_fifo =
     \<lparr>sets_num = 1, set_lines = 4, block_size = 4, block_bits = 2, set_bits = 0,
      policy = POLICY_FIFO, lines = [replicate 4 empty_line],
      hits = 0, misses = 0, reads = 0, writes = 0\<rparr>"


section \<open>Basic facts\<close>

declare find_line_loop.simps [simp del] age_loop.simps [simp del] select_loop.simps [simp del]
  log2_loop.simps [simp del]

lemma get_block_id_ok:
  "geometry_ok c \<Longrightarrow> get_block_id c a = Some (drop_bit (nat (block_bits c)) a)"
  by (simp add: geometry_ok_def get_block_id_def shr_def)

lemma get_tag_ok: "geometry_ok c \<Longrightarrow> get_tag c a = Some (tag_of c a)"
  by (simp add: geometry_ok_def get_tag_def shr_def tag_of_def INT_MIN_def INT_MAX_def)

lemma get_set_index_ok: "geometry_ok c \<Longrightarrow> get_set_index c a = Some (index_of c a)"
  apply (simp add: geometry_ok_def get_set_index_def get_block_id_def shr_def shl_def index_of_def)
  apply (auto simp add: take_bit_eq_mask mask_eq_exp_minus_1)
  done

lemma index_of_less: "unat (index_of c a) < 2 ^ nat (set_bits c)"
  unfolding index_of_def
  by (simp add: unsigned_take_bit_eq)

lemma recombine_parts:
  assumes "0 \<le> block_bits c" "0 \<le> set_bits c"
  shows "push_bit (nat (block_bits c + set_bits c)) (tag_of c a)
           OR push_bit (nat (block_bits c)) (index_of c a)
           OR (a AND mask (nat (block_bits c))) = a"
proof -
  define b where "b = nat (block_bits c)"
  define s where "s = nat (set_bits c)"
  have bs: "nat (block_bits c + set_bits c) = b + s"
    using assms by (simp add: b_def s_def nat_add_distrib)
  show ?thesis
    unfolding tag_of_def index_of_def bs b_def [symmetric] s_def [symmetric]
  proof (rule bit_eqI)
    fix n
    assume "possible_bit TYPE(ulong) n"
    then have n: "n < 64" by simp
    show "bit (push_bit (b + s) (drop_bit (b + s) a) OR push_bit b (take_bit s (drop_bit b a))
                OR (a AND mask b)) n = bit a n"
    proof (cases "n < b")
      case True
      with n show ?thesis by (auto simp add: bit_simps)
    next
      case False
      note nb = this
      show ?thesis
      proof (cases "n < b + s")
        case True
        with n nb show ?thesis by (auto simp add: bit_simps)
      next
        case False
        with n nb show ?thesis by (auto simp add: bit_simps)
      qed
    qed
  qed
qed

subsection \<open>The loops on a well-formed set are the list functions\<close>

lemma line_at_in:
  "unat s < length (lines c) \<Longrightarrow> i < length (the_set c s) \<Longrightarrow>
     line_at c s (int i) = Some (the_set c s ! i)"
  by (simp add: line_at_def the_set_def)

lemma find_line_loop_list:
  assumes "unat s < length (lines c)" "int (length (the_set c s)) = set_lines c"
  shows "i \<le> length (the_set c s) \<Longrightarrow>
    find_line_loop c s t (int i) = Some (find_list (drop i (the_set c s)) t i)"
proof (induction "length (the_set c s) - i" arbitrary: i)
  case 0
  then have "i = length (the_set c s)" by simp
  with assms show ?case
    by (subst find_line_loop.simps) simp
next
  case (Suc n)
  then have lt: "i < length (the_set c s)" by simp
  have IH: "find_line_loop c s t (int (Suc i)) = Some (find_list (drop (Suc i) (the_set c s)) t (Suc i))"
    using Suc.hyps(1) [of "Suc i"] Suc.hyps(2) lt by simp
  have dr: "drop i (the_set c s) = the_set c s ! i # drop (Suc i) (the_set c s)"
    using lt by (simp add: Cons_nth_drop_Suc)
  have IH': "find_line_loop c s t (int i + 1) = Some (find_list (drop (Suc i) (the_set c s)) t (Suc i))"
    using IH by (simp add: add.commute)
  show ?case
    using lt assms
    by (subst find_line_loop.simps) (simp add: line_at_in dr IH')
qed

lemma select_loop_list:
  assumes "unat s < length (lines c)" "int (length (the_set c s)) = set_lines c"
  shows "i \<le> length (the_set c s) \<Longrightarrow>
    select_loop c s (int i) r m = Some (select_list (drop i (the_set c s)) i r m)"
proof (induction "length (the_set c s) - i" arbitrary: i r m)
  case 0
  then have "i = length (the_set c s)" by simp
  with assms show ?case
    by (subst select_loop.simps) simp
next
  case (Suc n)
  then have lt: "i < length (the_set c s)" by simp
  have IH: "\<And>r m. select_loop c s (int i + 1) r m
                = Some (select_list (drop (Suc i) (the_set c s)) (Suc i) r m)"
  proof -
    fix r m
    have "select_loop c s (int (Suc i)) r m = Some (select_list (drop (Suc i) (the_set c s)) (Suc i) r m)"
      using Suc.hyps(1) [of "Suc i"] Suc.hyps(2) lt by simp
    then show "select_loop c s (int i + 1) r m
                 = Some (select_list (drop (Suc i) (the_set c s)) (Suc i) r m)"
      by (simp add: add.commute)
  qed
  have dr: "drop i (the_set c s) = the_set c s ! i # drop (Suc i) (the_set c s)"
    using lt by (simp add: Cons_nth_drop_Suc)
  show ?case
    using lt assms
    by (subst select_loop.simps) (simp add: line_at_in dr IH)
qed

lemma the_set_put_set [simp]:
  "unat s < length (lines c) \<Longrightarrow> the_set (put_set c s S) s = S"
  by (simp add: the_set_def put_set_def)

lemma put_set_put_set [simp]: "put_set (put_set c s S) s S' = put_set c s S'"
  by (simp add: put_set_def)

lemma put_set_the_set [simp]: "put_set c s (the_set c s) = c"
  by (simp add: put_set_def the_set_def)

lemma set_line_put_set: "set_line c s (int i) l = put_set c s ((the_set c s)[i := l])"
  by (simp add: set_line_def put_set_def the_set_def)

lemma put_set_fields [simp]:
  "set_lines (put_set c s S) = set_lines c"
  "length (lines (put_set c s S)) = length (lines c)"
  "hits (put_set c s S) = hits c" "misses (put_set c s S) = misses c"
  "reads (put_set c s S) = reads c" "writes (put_set c s S) = writes c"
  "policy (put_set c s S) = policy c" "block_bits (put_set c s S) = block_bits c"
  "set_bits (put_set c s S) = set_bits c" "sets_num (put_set c s S) = sets_num c"
  "block_size (put_set c s S) = block_size c"
  by (simp_all add: put_set_def)

lemma aged_from_length [simp]: "length (aged_from idx i S) = length S"
  by (simp add: aged_from_def)

lemma aged_from_nth:
  "j < length S \<Longrightarrow> aged_from idx i S ! j = (if i \<le> j then age_line idx j (S ! j) else S ! j)"
  by (simp add: aged_from_def)

lemma aged_from_end: "length S \<le> i \<Longrightarrow> aged_from idx i S = S"
  by (rule nth_equalityI) (simp_all add: aged_from_nth)

lemma aged_from_step:
  "i < length S \<Longrightarrow> aged_from idx (Suc i) (S[i := age_line idx i (S ! i)]) = aged_from idx i S"
proof (rule nth_equalityI)
  fix j
  assume "j < length (aged_from idx (Suc i) (S[i := age_line idx i (S ! i)]))"
  then have j: "j < length S" by simp
  consider "j < i" | "j = i" | "i < j" by linarith
  then show "aged_from idx (Suc i) (S[i := age_line idx i (S ! i)]) ! j = aged_from idx i S ! j"
    using j by cases (simp_all add: aged_from_nth)
qed simp

lemma age_loop_list:
  assumes "unat s < length (lines c)" "int (length (the_set c s)) = set_lines c"
  shows "i \<le> length (the_set c s) \<Longrightarrow>
    age_loop c s idx (int i) = Some (put_set c s (aged_from idx i (the_set c s)))"
  using assms
proof (induction "length (the_set c s) - i" arbitrary: i c)
  case 0
  then have "i = length (the_set c s)" by simp
  with 0 show ?case
    by (subst age_loop.simps) (simp add: aged_from_end)
next
  case (Suc n)
  then have lt: "i < length (the_set c s)" by simp
  let ?S = "the_set c s"
  let ?c1 = "put_set c s (?S[i := age_line idx i (?S ! i)])"
  have S1: "the_set ?c1 s = ?S[i := age_line idx i (?S ! i)]"
    using Suc.prems by simp
  have "age_loop ?c1 s idx (int (Suc i)) = Some (put_set ?c1 s (aged_from idx (Suc i) (the_set ?c1 s)))"
    using Suc.hyps(2) Suc.prems lt
    by (intro Suc.hyps(1)) (simp_all add: S1)
  then have IH: "age_loop ?c1 s idx (int i + 1) = Some (put_set c s (aged_from idx i ?S))"
    using lt by (simp add: S1 aged_from_step add.commute)
  have step: "age_loop c s idx (int i) = age_loop ?c1 s idx (int i + 1)"
    using lt Suc.prems
    apply (subst age_loop.simps)
    apply (simp add: line_at_in)
    apply (auto simp add: set_line_put_set age_line_def list_update_same_conv)
    done
  show ?case
    by (simp add: step IH)
qed

subsection \<open>Well-formedness\<close>

lemma wf_geometry: "wf_cache c \<Longrightarrow> geometry_ok c"
  by (simp add: wf_cache_def)

lemma wf_index: "wf_cache c \<Longrightarrow> unat (index_of c a) < length (lines c)"
  using index_of_less [of c a] by (simp add: wf_cache_def)

lemma wf_set_length:
  "wf_cache c \<Longrightarrow> unat s < length (lines c) \<Longrightarrow> int (length (the_set c s)) = set_lines c"
  by (simp add: wf_cache_def the_set_def list_all_length)

lemma wf_set_nonempty:
  "wf_cache c \<Longrightarrow> unat s < length (lines c) \<Longrightarrow> the_set c s \<noteq> []"
  using wf_set_length [of c s] by (auto simp add: wf_cache_def)

lemma wf_put_set:
  assumes "wf_cache c" "unat s < length (lines c)" "length S = length (the_set c s)"
  shows "wf_cache (put_set c s S)"
proof -
  have "int (length S) = set_lines c"
    using assms wf_set_length by simp
  then show ?thesis
    using assms(1,2)
    by (auto simp add: wf_cache_def put_set_def geometry_ok_def list_all_length nth_list_update)
qed

lemma counter_update_simps [simp]:
  "the_set (c\<lparr>hits := h\<rparr>) s = the_set c s"
  "the_set (c\<lparr>misses := h\<rparr>) s = the_set c s"
  "the_set (c\<lparr>reads := h\<rparr>) s = the_set c s"
  "the_set (c\<lparr>writes := h\<rparr>) s = the_set c s"
  "wf_cache (c\<lparr>hits := h\<rparr>) = wf_cache c"
  "wf_cache (c\<lparr>misses := h\<rparr>) = wf_cache c"
  "wf_cache (c\<lparr>reads := h\<rparr>) = wf_cache c"
  "wf_cache (c\<lparr>writes := h\<rparr>) = wf_cache c"
  "tag_of (c\<lparr>hits := h\<rparr>) = tag_of c"
  "tag_of (c\<lparr>misses := h\<rparr>) = tag_of c"
  "tag_of (c\<lparr>reads := h\<rparr>) = tag_of c"
  "tag_of (c\<lparr>writes := h\<rparr>) = tag_of c"
  "index_of (c\<lparr>hits := h\<rparr>) = index_of c"
  "index_of (c\<lparr>misses := h\<rparr>) = index_of c"
  "index_of (c\<lparr>reads := h\<rparr>) = index_of c"
  "index_of (c\<lparr>writes := h\<rparr>) = index_of c"
  by (simp_all add: the_set_def wf_cache_def geometry_ok_def tag_of_def index_of_def fun_eq_iff)

lemma put_set_geometry [simp]:
  "tag_of (put_set c s S) = tag_of c" "index_of (put_set c s S) = index_of c"
  by (simp_all add: tag_of_def index_of_def fun_eq_iff)

lemma put_set_counter_update:
  "put_set (c\<lparr>hits := h\<rparr>) s S = (put_set c s S)\<lparr>hits := h\<rparr>"
  "put_set (c\<lparr>misses := h\<rparr>) s S = (put_set c s S)\<lparr>misses := h\<rparr>"
  "put_set (c\<lparr>reads := h\<rparr>) s S = (put_set c s S)\<lparr>reads := h\<rparr>"
  "put_set (c\<lparr>writes := h\<rparr>) s S = (put_set c s S)\<lparr>writes := h\<rparr>"
  by (simp_all add: put_set_def)

subsection \<open>The slot selected by the scan\<close>

lemma select_list_range:
  "select_list ls i r m = r \<or> (int i \<le> select_list ls i r m \<and> select_list ls i r m < int i + int (length ls))"
proof (induction ls arbitrary: i r m)
  case Nil
  show ?case by simp
next
  case (Cons l ls)
  show ?case
    using Cons [of "Suc i" "int i" "age l"] Cons [of "Suc i" r m]
    by auto
qed

lemma select_list_first:
  "ls \<noteq> [] \<Longrightarrow> int i \<le> select_list ls i r 0 \<and> select_list ls i r 0 < int i + int (length ls)"
proof (cases ls)
  case Nil
  then show "ls \<noteq> [] \<Longrightarrow> ?thesis" by simp
next
  case (Cons l ls')
  show ?thesis
    using select_list_range [of ls' "Suc i" "int i" "age l"] Cons
    by auto
qed

lemma victim_range: "S \<noteq> [] \<Longrightarrow> 0 \<le> victim S \<and> victim S < int (length S)"
  using select_list_first [of S 0 "- 1"] by (simp add: victim_def)

lemma load_set_length [simp]: "length (load_set t S) = length S"
  by (simp add: load_set_def)

subsection \<open>The operations on a well-formed cache\<close>

lemma find_line_ok:
  assumes "wf_cache c"
  shows "find_line c a = Some (find_list (the_set c (index_of c a)) (tag_of c a) 0, index_of c a)"
  using assms find_line_loop_list [of "index_of c a" c 0 "tag_of c a"]
  by (simp add: find_line_def get_set_index_ok get_tag_ok wf_geometry wf_index wf_set_length)

lemma update_lru_on_access_ok:
  assumes "wf_cache c" "unat s < length (lines c)"
  shows "update_lru_on_access c s i =
    Some (if policy c \<noteq> POLICY_LRU then c else put_set c s (aged_from i 0 (the_set c s)))"
  using assms age_loop_list [of s c 0 i]
  by (simp add: update_lru_on_access_def wf_set_length)

lemma select_loop_ok:
  assumes "wf_cache c" "unat s < length (lines c)"
  shows "select_loop c s 0 (- 1) 0 = Some (victim (the_set c s))"
  using assms select_loop_list [of s c 0 "- 1" 0]
  by (simp add: victim_def wf_set_length)

lemma load_block_ok:
  assumes "wf_cache c"
  shows "load_block c a =
    Some (put_set c (index_of c a) (load_set (tag_of c a) (the_set c (index_of c a))))"
proof -
  let ?s = "index_of c a"
  let ?S = "the_set c ?s"
  let ?r = "victim ?S"
  have s: "unat ?s < length (lines c)"
    using assms by (rule wf_index)
  have r: "0 \<le> ?r" "?r < int (length ?S)"
    using victim_range [of ?S] wf_set_nonempty [OF assms s] by simp_all
  then have r': "int (nat ?r) = ?r" "nat ?r < length ?S"
    by simp_all
  have la: "line_at c ?s ?r = Some (?S ! nat ?r)"
    using line_at_in [OF s r'(2)] r'(1) by simp
  let ?c1 = "put_set c ?s (?S[nat ?r := (?S ! nat ?r)\<lparr>valid := 1, tag := tag_of c a\<rparr>])"
  have sl: "set_line c ?s ?r ((?S ! nat ?r)\<lparr>valid := 1, tag := tag_of c a\<rparr>) = ?c1"
    using set_line_put_set [of c ?s "nat ?r"] r'(1) by simp
  have "age_loop ?c1 ?s ?r (int 0) = Some (put_set ?c1 ?s (aged_from ?r 0 (the_set ?c1 ?s)))"
    using s assms wf_set_length [OF assms s]
    by (intro age_loop_list) simp_all
  then have al: "age_loop ?c1 ?s ?r 0 = Some (put_set c ?s (load_set (tag_of c a) ?S))"
    using s by (simp add: load_set_def)
  show ?thesis
    using assms s
    by (simp add: load_block_def get_set_index_ok get_tag_ok wf_geometry select_loop_ok la sl al)
qed

subsection \<open>Counters and well-formedness across the operations\<close>

lemma next_address_ok:
  "geometry_ok c \<Longrightarrow>
     Option.bind (get_block_id c a) (\<lambda>b. shl (b + 1) (block_bits c)) = Some (next_address c a)"
  by (simp add: get_block_id_ok next_address_def shl_def geometry_ok_def)

lemma prefetch_next_ok:
  assumes "wf_cache c"
  shows "prefetch_next c a =
    (if find_list (the_set c (index_of c (next_address c a))) (tag_of c (next_address c a)) 0 = - 1
     then load_block (c\<lparr>reads := reads c + 1\<rparr>) (next_address c a)
     else Some c)"
proof -
  have g: "geometry_ok c"
    using assms by (rule wf_geometry)
  have "get_block_id c a = Some (drop_bit (nat (block_bits c)) a)"
    using g by (rule get_block_id_ok)
  moreover have "shl (drop_bit (nat (block_bits c)) a + 1) (block_bits c) = Some (next_address c a)"
    using g by (simp add: next_address_def shl_def geometry_ok_def)
  ultimately show ?thesis
    using assms by (simp add: prefetch_next_def find_line_ok)
qed

lemma load_block_frame:
  assumes "wf_cache c"
  shows "\<exists>c'. load_block c a = Some c' \<and> wf_cache c' \<and> hits c' = hits c \<and> misses c' = misses c
           \<and> reads c' = reads c \<and> writes c' = writes c \<and> policy c' = policy c"
  using assms wf_index [OF assms, of a]
  by (simp add: load_block_ok wf_put_set)

lemma prefetch_next_frame:
  assumes "wf_cache c"
  shows "\<exists>c'. prefetch_next c a = Some c' \<and> wf_cache c' \<and> hits c' = hits c \<and> misses c' = misses c
           \<and> writes c' = writes c \<and> policy c' = policy c
           \<and> (reads c' = reads c \<or> reads c' = reads c + 1)"
proof -
  have "wf_cache (c\<lparr>reads := reads c + 1\<rparr>)"
    using assms by simp
  from load_block_frame [OF this, of "next_address c a"]
  show ?thesis
    using assms by (auto simp add: prefetch_next_ok)
qed

lemma update_lru_frame:
  assumes "wf_cache c" "unat s < length (lines c)"
  shows "\<exists>c'. update_lru_on_access c s i = Some c' \<and> wf_cache c' \<and> hits c' = hits c
           \<and> misses c' = misses c \<and> reads c' = reads c \<and> writes c' = writes c
           \<and> policy c' = policy c"
  using assms by (simp add: update_lru_on_access_ok wf_put_set)

lemma simulate_read_hit:
  assumes "wf_cache c" "find_line c a = Some (i, s)" "i \<noteq> - 1"
  shows "simulate_read c a pf = update_lru_on_access (c\<lparr>hits := hits c + 1\<rparr>) s i"
  using assms by (simp add: simulate_read_def)

lemma simulate_read_miss:
  assumes "find_line c a = Some (- 1, s)"
  shows "simulate_read c a pf =
    Option.bind (load_block (c\<lparr>misses := misses c + 1, reads := reads c + 1\<rparr>) a)
      (\<lambda>c1. if pf \<noteq> 0 then prefetch_next c1 a else Some c1)"
  using assms by (simp add: simulate_read_def)

lemma simulate_write_hit:
  assumes "find_line c a = Some (i, s)" "i \<noteq> - 1"
  shows "simulate_write c a pf =
    update_lru_on_access (c\<lparr>hits := hits c + 1, writes := writes c + 1\<rparr>) s i"
  using assms by (simp add: simulate_write_def)

lemma simulate_write_miss:
  assumes "find_line c a = Some (- 1, s)"
  shows "simulate_write c a pf =
    Option.bind (load_block (c\<lparr>misses := misses c + 1, reads := reads c + 1\<rparr>) a)
      (\<lambda>c1. if pf \<noteq> 0 then prefetch_next (c1\<lparr>writes := writes c1 + 1\<rparr>) a
             else Some (c1\<lparr>writes := writes c1 + 1\<rparr>))"
  using assms by (simp add: simulate_write_def Let_def)

lemma find_line_set:
  "wf_cache c \<Longrightarrow> find_line c a = Some (i, s) \<Longrightarrow> s = index_of c a \<and> unat s < length (lines c)"
  by (auto simp add: find_line_ok wf_index)

lemma find_line_total: "wf_cache c \<Longrightarrow> \<exists>i. find_line c a = Some (i, index_of c a)"
  by (simp add: find_line_ok)

lemma simulate_read_frame:
  assumes "wf_cache c" "find_line c a = Some (i, s)"
  shows "\<exists>c'. simulate_read c a pf = Some c' \<and> wf_cache c' \<and> policy c' = policy c
      \<and> writes c' = writes c
      \<and> (if i \<noteq> - 1 then hits c' = hits c + 1 \<and> misses c' = misses c \<and> reads c' = reads c
          else hits c' = hits c \<and> misses c' = misses c + 1
            \<and> (if pf = 0 then reads c' = reads c + 1
                else reads c' = reads c + 1 \<or> reads c' = reads c + 2))"
proof (cases "i = - 1")
  case False
  have s: "unat s < length (lines (c\<lparr>hits := hits c + 1\<rparr>))"
    using find_line_set [OF assms] by auto
  have w: "wf_cache (c\<lparr>hits := hits c + 1\<rparr>)"
    using assms(1) by simp
  show ?thesis
    using update_lru_frame [OF w s, of i] False assms
    by (auto simp add: simulate_read_hit)
next
  case True
  let ?c0 = "c\<lparr>misses := misses c + 1, reads := reads c + 1\<rparr>"
  have w: "wf_cache ?c0"
    using assms(1) by simp
  from load_block_frame [OF w, of a] obtain c1 where
    c1: "load_block ?c0 a = Some c1" "wf_cache c1" "hits c1 = hits c" "misses c1 = misses c + 1"
      "reads c1 = reads c + 1" "writes c1 = writes c" "policy c1 = policy c"
    by auto
  from prefetch_next_frame [OF c1(2), of a] obtain c2 where
    c2: "prefetch_next c1 a = Some c2" "wf_cache c2" "hits c2 = hits c1" "misses c2 = misses c1"
      "writes c2 = writes c1" "policy c2 = policy c1" "reads c2 = reads c1 \<or> reads c2 = reads c1 + 1"
    by auto
  show ?thesis
    using True assms(2) c1 c2
    by (auto simp add: simulate_read_miss)
qed

lemma simulate_write_frame:
  assumes "wf_cache c" "find_line c a = Some (i, s)"
  shows "\<exists>c'. simulate_write c a pf = Some c' \<and> wf_cache c' \<and> policy c' = policy c
      \<and> writes c' = writes c + 1
      \<and> (if i \<noteq> - 1 then hits c' = hits c + 1 \<and> misses c' = misses c \<and> reads c' = reads c
          else hits c' = hits c \<and> misses c' = misses c + 1
            \<and> (if pf = 0 then reads c' = reads c + 1
                else reads c' = reads c + 1 \<or> reads c' = reads c + 2))"
proof (cases "i = - 1")
  case False
  let ?c0 = "c\<lparr>hits := hits c + 1, writes := writes c + 1\<rparr>"
  have s: "unat s < length (lines ?c0)"
    using find_line_set [OF assms] by auto
  have w: "wf_cache ?c0"
    using assms(1) by simp
  show ?thesis
    using update_lru_frame [OF w s, of i] False assms
    by (auto simp add: simulate_write_hit)
next
  case True
  let ?c0 = "c\<lparr>misses := misses c + 1, reads := reads c + 1\<rparr>"
  have w: "wf_cache ?c0"
    using assms(1) by simp
  from load_block_frame [OF w, of a] obtain c1 where
    c1: "load_block ?c0 a = Some c1" "wf_cache c1" "hits c1 = hits c" "misses c1 = misses c + 1"
      "reads c1 = reads c + 1" "writes c1 = writes c" "policy c1 = policy c"
    by auto
  let ?c1 = "c1\<lparr>writes := writes c1 + 1\<rparr>"
  have w1: "wf_cache ?c1"
    using c1(2) by simp
  from prefetch_next_frame [OF w1, of a] obtain c2 where
    c2: "prefetch_next ?c1 a = Some c2" "wf_cache c2" "hits c2 = hits ?c1" "misses c2 = misses ?c1"
      "writes c2 = writes ?c1" "policy c2 = policy ?c1" "reads c2 = reads ?c1 \<or> reads c2 = reads ?c1 + 1"
    by auto
  show ?thesis
    using True assms(2) c1 c2
    by (auto simp add: simulate_write_miss)
qed

subsection \<open>The example caches\<close>

lemma create_direct_fifo: "create_cache 32 1 4 POLICY_FIFO = Some direct_fifo"
  by code_simp

lemma create_assoc_lru: "create_cache 16 4 4 POLICY_LRU = Some assoc_lru"
  by code_simp

lemma wf_direct_fifo: "wf_cache direct_fifo"
  by code_simp

lemma wf_assoc_lru: "wf_cache assoc_lru"
  by code_simp

lemma wf_tied_cache: "wf_cache tied_cache"
  by code_simp

subsection \<open>One record of the trace\<close>

lemma access_frame:
  assumes "wf_cache c"
  shows "\<exists>c'. access pf c r = Some c' \<and> wf_cache c' \<and> policy c' = policy c
      \<and> (if is_demand r
          then (hits c' = hits c + 1 \<and> misses c' = misses c)
             \<or> (hits c' = hits c \<and> misses c' = misses c + 1)
          else hits c' = hits c \<and> misses c' = misses c)
      \<and> (reads c' = reads c \<or> reads c' = reads c + 1 \<or> reads c' = reads c + 2)
      \<and> (writes c' = writes c \<or> writes c' = writes c + 1)"
proof -
  obtain i where fl: "find_line c (snd r) = Some (i, index_of c (snd r))"
    using find_line_total [OF assms] by blast
  show ?thesis
    using simulate_read_frame [OF assms fl, of pf] simulate_write_frame [OF assms fl, of pf] assms
    by (auto simp add: access_def is_demand_def split: if_splits)
qed

lemma unat_inc: "unat (x :: ulong) + 1 < 2 ^ 64 \<Longrightarrow> unat (x + 1) = unat x + 1"
  using unat_add_lem [of x 1] by simp

lemma unat_inc2: "unat (x :: ulong) + 2 < 2 ^ 64 \<Longrightarrow> unat (x + 2) = unat x + 2"
  using unat_add_lem [of x 2] by simp

lemma run_trace_counters:
  assumes "wf_cache c"
    and "unat (hits c) + unat (misses c) + length tr < 2 ^ 64"
    and "unat (reads c) + 2 * length tr < 2 ^ 64"
    and "unat (writes c) + length tr < 2 ^ 64"
  shows "\<exists>c'. run_trace pf c tr = Some c' \<and> wf_cache c'
      \<and> unat (hits c') + unat (misses c') = unat (hits c) + unat (misses c) + demand_count tr
      \<and> unat (hits c) \<le> unat (hits c') \<and> unat (misses c) \<le> unat (misses c')
      \<and> unat (reads c) \<le> unat (reads c') \<and> unat (reads c') \<le> unat (reads c) + 2 * length tr
      \<and> unat (writes c) \<le> unat (writes c') \<and> unat (writes c') \<le> unat (writes c) + length tr"
  using assms
proof (induction tr arbitrary: c)
  case Nil
  then show ?case by (simp add: demand_count_def)
next
  case (Cons r tr)
  from access_frame [OF Cons.prems(1), of pf r] obtain c1 where
    c1: "access pf c r = Some c1" "wf_cache c1"
      "if is_demand r
       then (hits c1 = hits c + 1 \<and> misses c1 = misses c) \<or> (hits c1 = hits c \<and> misses c1 = misses c + 1)
       else hits c1 = hits c \<and> misses c1 = misses c"
      "reads c1 = reads c \<or> reads c1 = reads c + 1 \<or> reads c1 = reads c + 2"
      "writes c1 = writes c \<or> writes c1 = writes c + 1"
    by blast
  have hm: "unat (hits c1) + unat (misses c1)
              = unat (hits c) + unat (misses c) + (if is_demand r then 1 else 0)
            \<and> unat (hits c) \<le> unat (hits c1) \<and> unat (misses c) \<le> unat (misses c1)"
    using c1(3) Cons.prems(2) unat_inc [of "hits c"] unat_inc [of "misses c"]
    by (auto split: if_splits)
  have rd: "unat (reads c) \<le> unat (reads c1) \<and> unat (reads c1) \<le> unat (reads c) + 2"
    using c1(4) Cons.prems(3) unat_inc [of "reads c"] unat_inc2 [of "reads c"]
    by auto
  have wr: "unat (writes c) \<le> unat (writes c1) \<and> unat (writes c1) \<le> unat (writes c) + 1"
    using c1(5) Cons.prems(4) unat_inc [of "writes c"]
    by auto
  have b1: "unat (hits c1) + unat (misses c1) + length tr < 2 ^ 64"
    using hm Cons.prems(2) by (auto split: if_splits)
  have b2: "unat (reads c1) + 2 * length tr < 2 ^ 64"
    using rd Cons.prems(3) by auto
  have b3: "unat (writes c1) + length tr < 2 ^ 64"
    using wr Cons.prems(4) by auto
  from Cons.IH [OF c1(2) b1 b2 b3] obtain c' where
    c': "run_trace pf c1 tr = Some c'" "wf_cache c'"
      "unat (hits c') + unat (misses c') = unat (hits c1) + unat (misses c1) + demand_count tr"
      "unat (hits c1) \<le> unat (hits c')" "unat (misses c1) \<le> unat (misses c')"
      "unat (reads c1) \<le> unat (reads c')" "unat (reads c') \<le> unat (reads c1) + 2 * length tr"
      "unat (writes c1) \<le> unat (writes c')" "unat (writes c') \<le> unat (writes c1) + length tr"
    by blast
  have dc: "demand_count (r # tr) = (if is_demand r then 1 else 0) + demand_count tr"
    by (simp add: demand_count_def)
  show ?case
    using c1(1) c' hm rd wr dc
    by (auto split: if_splits)
qed

lemma load_block_counters:
  assumes "wf_cache c"
  shows "load_block (c\<lparr>misses := m, reads := r\<rparr>) a
           = map_option (\<lambda>c'. c'\<lparr>misses := m, reads := r\<rparr>) (load_block c a)"
  using assms by (simp add: load_block_ok put_set_counter_update)

lemma write_miss_reads:
  assumes "wf_cache c" "find_line c a = Some (- 1, s)"
  shows "\<exists>c1 cw j s'. load_block c a = Some c1 \<and> find_line c1 (next_address c a) = Some (j, s')
           \<and> simulate_write c a pf = Some cw
           \<and> reads cw = reads c + (if pf \<noteq> 0 \<and> j = - 1 then 2 else 1)"
proof -
  let ?s = "index_of c a"
  let ?c1 = "put_set c ?s (load_set (tag_of c a) (the_set c ?s))"
  let ?na = "next_address c a"
  have s: "unat ?s < length (lines c)"
    using assms(1) by (rule wf_index)
  have w1: "wf_cache ?c1"
    using assms(1) s by (simp add: wf_put_set)
  have lb: "load_block c a = Some ?c1"
    using assms(1) by (rule load_block_ok)
  let ?c2 = "?c1\<lparr>misses := misses c + 1, reads := reads c + 1, writes := writes c + 1\<rparr>"
  have w2: "wf_cache ?c2"
    using w1 by simp
  have na: "next_address ?c2 a = ?na"
    by (simp add: next_address_def)
  let ?j = "find_list (the_set ?c1 (index_of ?c1 ?na)) (tag_of ?c1 ?na) 0"
  have fl: "find_line ?c1 ?na = Some (?j, index_of ?c1 ?na)"
    using w1 by (rule find_line_ok)
  from load_block_frame [of "?c2\<lparr>reads := reads ?c2 + 1\<rparr>" ?na] w2
  obtain c3 where c3: "load_block (?c2\<lparr>reads := reads ?c2 + 1\<rparr>) ?na = Some c3" "reads c3 = reads c + 2"
    by auto
  have sw: "simulate_write c a pf = (if pf \<noteq> 0 then prefetch_next ?c2 a else Some ?c2)"
    using assms by (simp add: simulate_write_miss load_block_counters lb)
  have pn: "prefetch_next ?c2 a = (if ?j = - 1 then Some c3 else Some ?c2)"
    using w2 c3 by (simp add: prefetch_next_ok na)
  show ?thesis
    using lb fl sw pn c3(2) by auto
qed

lemma run_trace_sums:
  assumes "wf_cache c"
  shows "\<exists>c'. run_trace pf c tr = Some c' \<and> wf_cache c'
      \<and> hits c' + misses c' = hits c + misses c + of_nat (demand_count tr)
      \<and> writes c' = writes c + of_nat (length (filter (\<lambda>r. fst r = CHR ''W'') tr))"
  using assms
proof (induction tr arbitrary: c)
  case Nil
  then show ?case by (simp add: demand_count_def)
next
  case (Cons r tr)
  obtain i where fl: "find_line c (snd r) = Some (i, index_of c (snd r))"
    using find_line_total [OF Cons.prems] by blast
  have "\<exists>c1. access pf c r = Some c1 \<and> wf_cache c1
      \<and> hits c1 + misses c1 = hits c + misses c + (if is_demand r then 1 else 0)
      \<and> writes c1 = writes c + (if fst r = CHR ''W'' then 1 else 0)"
    using simulate_read_frame [OF Cons.prems fl, of pf] simulate_write_frame [OF Cons.prems fl, of pf]
      Cons.prems
    by (auto simp add: access_def is_demand_def split: if_splits)
  then obtain c1 where c1: "access pf c r = Some c1" "wf_cache c1"
      "hits c1 + misses c1 = hits c + misses c + (if is_demand r then 1 else 0)"
      "writes c1 = writes c + (if fst r = CHR ''W'' then 1 else 0)"
    by blast
  from Cons.IH [OF c1(2)] obtain c' where c': "run_trace pf c1 tr = Some c'" "wf_cache c'"
      "hits c' + misses c' = hits c1 + misses c1 + of_nat (demand_count tr)"
      "writes c' = writes c1 + of_nat (length (filter (\<lambda>r. fst r = CHR ''W'') tr))"
    by blast
  show ?case
    using c1 c' by (simp add: demand_count_def)
qed

subsection \<open>Tag uniqueness\<close>

lemma set_unique_Cons:
  "set_unique (l # S) \<longleftrightarrow>
     set_unique S \<and> (valid l \<noteq> 0 \<longrightarrow> (\<forall>x \<in> set S. valid x \<noteq> 0 \<longrightarrow> tag x \<noteq> tag l))"
proof -
  have "tag l \<in> tag ` {x \<in> set S. valid x \<noteq> 0} \<longleftrightarrow> (\<exists>x \<in> set S. valid x \<noteq> 0 \<and> tag x = tag l)"
    by (auto simp add: image_iff)
  then show ?thesis
    by (auto simp add: set_unique_def)
qed

lemma set_unique_nth:
  "set_unique S \<longleftrightarrow>
     (\<forall>i < length S. \<forall>j < length S.
        valid (S ! i) \<noteq> 0 \<and> valid (S ! j) \<noteq> 0 \<and> tag (S ! i) = tag (S ! j) \<longrightarrow> i = j)"
proof (induction S)
  case Nil
  show ?case by (simp add: set_unique_def)
next
  case (Cons l S)
  let ?P = "\<lambda>S i j. valid (S ! i) \<noteq> 0 \<and> valid (S ! j) \<noteq> 0 \<and> tag (S ! i) = tag (S ! j) \<longrightarrow> i = j"
  show ?case
  proof
    assume u: "set_unique (l # S)"
    then have uS: "\<forall>i < length S. \<forall>j < length S. ?P S i j"
      and ul: "valid l \<noteq> 0 \<longrightarrow> (\<forall>x \<in> set S. valid x \<noteq> 0 \<longrightarrow> tag x \<noteq> tag l)"
      using Cons.IH by (simp_all add: set_unique_Cons)
    show "\<forall>i < length (l # S). \<forall>j < length (l # S). ?P (l # S) i j"
    proof (intro allI impI)
      fix i j
      assume i: "i < length (l # S)" and j: "j < length (l # S)"
        and h: "valid ((l # S) ! i) \<noteq> 0 \<and> valid ((l # S) ! j) \<noteq> 0 \<and> tag ((l # S) ! i) = tag ((l # S) ! j)"
      show "i = j"
      proof (cases i)
        case 0
        show ?thesis
        proof (cases j)
          case 0
          with \<open>i = 0\<close> show ?thesis by simp
        next
          case (Suc j')
          then have "S ! j' \<in> set S" using j by simp
          with ul h \<open>i = 0\<close> Suc show ?thesis by auto
        qed
      next
        case (Suc i')
        show ?thesis
        proof (cases j)
          case 0
          have "S ! i' \<in> set S" using i Suc by simp
          with ul h \<open>j = 0\<close> Suc show ?thesis by auto
        next
          case (Suc j')
          with uS h i j \<open>i = Suc i'\<close> show ?thesis by auto
        qed
      qed
    qed
  next
    assume a: "\<forall>i < length (l # S). \<forall>j < length (l # S). ?P (l # S) i j"
    have "\<forall>i < length S. \<forall>j < length S. ?P S i j"
    proof (intro allI impI)
      fix i j
      assume "i < length S" "j < length S"
        and "valid (S ! i) \<noteq> 0 \<and> valid (S ! j) \<noteq> 0 \<and> tag (S ! i) = tag (S ! j)"
      with a [rule_format, of "Suc i" "Suc j"] show "i = j" by simp
    qed
    then have uS: "set_unique S"
      using Cons.IH by simp
    have "valid l \<noteq> 0 \<longrightarrow> (\<forall>x \<in> set S. valid x \<noteq> 0 \<longrightarrow> tag x \<noteq> tag l)"
    proof (intro impI ballI)
      fix x
      assume l: "valid l \<noteq> 0" and x: "x \<in> set S" "valid x \<noteq> 0"
      from x(1) obtain j where j: "j < length S" "S ! j = x"
        by (auto simp add: in_set_conv_nth)
      show "tag x \<noteq> tag l"
        using a [rule_format, of 0 "Suc j"] l x(2) j by auto
    qed
    with uS show "set_unique (l # S)"
      by (simp add: set_unique_Cons)
  qed
qed

lemma find_list_lower: "find_list ls t i = - 1 \<or> int i \<le> find_list ls t i"
proof (induction ls arbitrary: i)
  case Nil
  show ?case by simp
next
  case (Cons l ls)
  show ?case
    using Cons [of "Suc i"] by auto
qed

lemma find_list_miss:
  "find_list ls t i = - 1 \<longleftrightarrow> (\<forall>l \<in> set ls. \<not> (valid l \<noteq> 0 \<and> tag l = t))"
proof (induction ls arbitrary: i)
  case Nil
  show ?case by simp
next
  case (Cons l ls)
  show ?case
    using Cons [of "Suc i"] by auto
qed


lemma age_line_valid_tag [simp]:
  "valid (age_line idx j l) = valid l" "tag (age_line idx j l) = tag l"
  by (simp_all add: age_line_def)

lemma aged_from_valid_tag:
  "j < length S \<Longrightarrow> valid (aged_from idx i S ! j) = valid (S ! j)"
  "j < length S \<Longrightarrow> tag (aged_from idx i S ! j) = tag (S ! j)"
  by (simp_all add: aged_from_nth)

lemma set_unique_aged: "set_unique (aged_from idx i S) \<longleftrightarrow> set_unique S"
  by (simp add: set_unique_nth aged_from_valid_tag)

lemma load_set_nth:
  assumes "S \<noteq> []" "j < length S"
  shows "valid (load_set t S ! j) = (if int j = victim S then 1 else valid (S ! j))"
    and "tag (load_set t S ! j) = (if int j = victim S then t else tag (S ! j))"
  using assms victim_range [OF assms(1)]
  by (auto simp add: load_set_def aged_from_valid_tag nth_list_update)

lemma set_unique_load:
  assumes "set_unique S" "find_list S t 0 = - 1" "S \<noteq> []"
  shows "set_unique (load_set t S)"
proof -
  have miss: "\<And>j. j < length S \<Longrightarrow> valid (S ! j) \<noteq> 0 \<Longrightarrow> tag (S ! j) \<noteq> t"
    using assms(2) by (auto simp add: find_list_miss)
  show ?thesis
    unfolding set_unique_nth
  proof (intro allI impI)
    fix i j
    assume i: "i < length (load_set t S)" and j: "j < length (load_set t S)"
      and h: "valid (load_set t S ! i) \<noteq> 0 \<and> valid (load_set t S ! j) \<noteq> 0
              \<and> tag (load_set t S ! i) = tag (load_set t S ! j)"
    have i': "i < length S" and j': "j < length S"
      using i j by simp_all
    show "i = j"
    proof (cases "int i = victim S")
      case True
      note iv = this
      show ?thesis
      proof (cases "int j = victim S")
        case True
        with iv show ?thesis by simp
      next
        case False
        with h iv miss [OF j'] show ?thesis
          by (auto simp add: load_set_nth [OF assms(3) i'] load_set_nth [OF assms(3) j'])
      qed
    next
      case False
      note iv = this
      show ?thesis
      proof (cases "int j = victim S")
        case True
        with h iv miss [OF i'] show ?thesis
          by (auto simp add: load_set_nth [OF assms(3) i'] load_set_nth [OF assms(3) j'])
      next
        case False
        with h iv assms(1) i' j' show ?thesis
          by (auto simp add: set_unique_nth load_set_nth [OF assms(3) i'] load_set_nth [OF assms(3) j'])
      qed
    qed
  qed
qed

lemma tags_unique_counters [simp]:
  "tags_unique (c\<lparr>hits := h\<rparr>) = tags_unique c"
  "tags_unique (c\<lparr>misses := h\<rparr>) = tags_unique c"
  "tags_unique (c\<lparr>reads := h\<rparr>) = tags_unique c"
  "tags_unique (c\<lparr>writes := h\<rparr>) = tags_unique c"
  by (simp_all add: tags_unique_def)

lemma tags_unique_the_set:
  "tags_unique c \<Longrightarrow> unat s < length (lines c) \<Longrightarrow> set_unique (the_set c s)"
  by (simp add: tags_unique_def the_set_def list_all_length)

lemma tags_unique_put_set:
  "tags_unique c \<Longrightarrow> set_unique S \<Longrightarrow> tags_unique (put_set c s S)"
proof (cases "unat s < length (lines c)")
  case True
  assume "tags_unique c" "set_unique S"
  with True show ?thesis
    by (auto simp add: tags_unique_def put_set_def list_all_length nth_list_update)
next
  case False
  assume "tags_unique c" "set_unique S"
  with False show ?thesis
    by (simp add: tags_unique_def put_set_def list_update_beyond not_less)
qed

lemma load_block_unique:
  assumes "wf_cache c" "tags_unique c" "find_line c a = Some (- 1, s)"
  shows "\<exists>c'. load_block c a = Some c' \<and> wf_cache c' \<and> tags_unique c'"
proof -
  let ?s = "index_of c a"
  have s: "unat ?s < length (lines c)"
    using assms(1) by (rule wf_index)
  have miss: "find_list (the_set c ?s) (tag_of c a) 0 = - 1"
    using assms(1,3) by (auto simp add: find_line_ok)
  have "set_unique (load_set (tag_of c a) (the_set c ?s))"
    using tags_unique_the_set [OF assms(2) s] miss wf_set_nonempty [OF assms(1) s]
    by (rule set_unique_load)
  then show ?thesis
    using assms(1,2) s by (simp add: load_block_ok wf_put_set tags_unique_put_set)
qed

lemma prefetch_next_unique:
  assumes "wf_cache c" "tags_unique c"
  shows "\<exists>c'. prefetch_next c a = Some c' \<and> wf_cache c' \<and> tags_unique c'"
proof (cases "find_list (the_set c (index_of c (next_address c a))) (tag_of c (next_address c a)) 0 = - 1")
  case True
  let ?c1 = "c\<lparr>reads := reads c + 1\<rparr>"
  have "find_line ?c1 (next_address c a) = Some (- 1, index_of c (next_address c a))"
    using assms(1) True by (simp add: find_line_ok)
  from load_block_unique [OF _ _ this] assms True show ?thesis
    by (simp add: prefetch_next_ok)
next
  case False
  with assms show ?thesis
    by (simp add: prefetch_next_ok)
qed

lemma update_lru_unique:
  assumes "wf_cache c" "tags_unique c" "unat s < length (lines c)"
  shows "\<exists>c'. update_lru_on_access c s i = Some c' \<and> wf_cache c' \<and> tags_unique c'"
  using assms tags_unique_the_set [OF assms(2,3)]
  by (simp add: update_lru_on_access_ok wf_put_set tags_unique_put_set set_unique_aged)

lemma simulate_read_unique:
  assumes "wf_cache c" "tags_unique c"
  shows "\<exists>c'. simulate_read c a pf = Some c' \<and> wf_cache c' \<and> tags_unique c'"
proof -
  obtain i where fl: "find_line c a = Some (i, index_of c a)"
    using find_line_total [OF assms(1)] by blast
  show ?thesis
  proof (cases "i = - 1")
    case False
    have "unat (index_of c a) < length (lines (c\<lparr>hits := hits c + 1\<rparr>))"
      using wf_index [OF assms(1)] by simp
    from update_lru_unique [OF _ _ this, of i] assms False fl show ?thesis
      by (simp add: simulate_read_hit)
  next
    case True
    let ?c0 = "c\<lparr>misses := misses c + 1, reads := reads c + 1\<rparr>"
    have "find_line ?c0 a = Some (- 1, index_of c a)"
      using fl True assms(1) by (simp add: find_line_ok)
    from load_block_unique [OF _ _ this] assms obtain c1 where
      c1: "load_block ?c0 a = Some c1" "wf_cache c1" "tags_unique c1"
      by auto
    from prefetch_next_unique [OF c1(2,3), of a] c1 fl True show ?thesis
      by (auto simp add: simulate_read_miss)
  qed
qed

lemma simulate_write_unique:
  assumes "wf_cache c" "tags_unique c"
  shows "\<exists>c'. simulate_write c a pf = Some c' \<and> wf_cache c' \<and> tags_unique c'"
proof -
  obtain i where fl: "find_line c a = Some (i, index_of c a)"
    using find_line_total [OF assms(1)] by blast
  show ?thesis
  proof (cases "i = - 1")
    case False
    let ?c0 = "c\<lparr>hits := hits c + 1, writes := writes c + 1\<rparr>"
    have "unat (index_of c a) < length (lines ?c0)"
      using wf_index [OF assms(1)] by simp
    from update_lru_unique [OF _ _ this, of i] assms False fl show ?thesis
      by (simp add: simulate_write_hit)
  next
    case True
    let ?c0 = "c\<lparr>misses := misses c + 1, reads := reads c + 1\<rparr>"
    have "find_line ?c0 a = Some (- 1, index_of c a)"
      using fl True assms(1) by (simp add: find_line_ok)
    from load_block_unique [OF _ _ this] assms obtain c1 where
      c1: "load_block ?c0 a = Some c1" "wf_cache c1" "tags_unique c1"
      by auto
    have "wf_cache (c1\<lparr>writes := writes c1 + 1\<rparr>)" "tags_unique (c1\<lparr>writes := writes c1 + 1\<rparr>)"
      using c1 by simp_all
    from prefetch_next_unique [OF this, of a] c1 fl True show ?thesis
      by (auto simp add: simulate_write_miss)
  qed
qed

lemma access_unique:
  assumes "wf_cache c" "tags_unique c"
  shows "\<exists>c'. access pf c r = Some c' \<and> wf_cache c' \<and> tags_unique c'"
  using simulate_read_unique [OF assms, of "snd r" pf] simulate_write_unique [OF assms, of "snd r" pf]
    assms
  by (simp add: access_def)

lemma run_trace_unique:
  assumes "wf_cache c" "tags_unique c"
  shows "\<exists>c'. run_trace pf c tr = Some c' \<and> wf_cache c' \<and> tags_unique c'"
  using assms
proof (induction tr arbitrary: c)
  case Nil
  then show ?case by simp
next
  case (Cons r tr)
  from access_unique [OF Cons.prems, of pf r] obtain c1 where
    c1: "access pf c r = Some c1" "wf_cache c1" "tags_unique c1"
    by blast
  from Cons.IH [OF c1(2,3)] c1(1) show ?case
    by simp
qed

subsection \<open>A fresh cache\<close>

lemma unat_pow2: "n < 64 \<Longrightarrow> unat ((2 :: ulong) ^ n) = 2 ^ n"
proof -
  assume n: "n < 64"
  have "(2 :: nat) ^ n < 2 ^ 64"
    using n by (intro power_strict_increasing) simp_all
  moreover have "(2 :: ulong) ^ n = of_nat (2 ^ n)"
    by simp
  ultimately show ?thesis
    by (simp only: unat_of_nat) simp
qed

lemma log2_loop_pow: "n < 64 \<Longrightarrow> log2_loop (2 ^ n) count = count + int n"
proof (induction n arbitrary: count)
  case 0
  show ?case
    by (subst log2_loop.simps) simp
next
  case (Suc n)
  have gt: "(1 :: ulong) < 2 ^ Suc n"
  proof -
    have "unat ((2 :: ulong) ^ Suc n) = 2 ^ Suc n"
      using Suc.prems by (rule unat_pow2)
    moreover have "(1 :: nat) < 2 ^ Suc n"
      by (rule one_less_power) simp_all
    ultimately show ?thesis
      by (simp add: word_less_nat_alt del: power_Suc)
  qed
  have dr: "drop_bit 1 ((2 :: ulong) ^ Suc n) = 2 ^ n"
  proof -
    have "unat (drop_bit 1 ((2 :: ulong) ^ Suc n)) = unat ((2 :: ulong) ^ Suc n) div 2"
      by (simp add: drop_bit_eq_div unat_div del: power_Suc)
    also have "\<dots> = 2 ^ n"
      using Suc.prems by (simp add: unat_pow2 del: power_Suc) simp
    also have "\<dots> = unat ((2 :: ulong) ^ n)"
      using Suc.prems by (simp add: unat_pow2)
    finally show ?thesis
      by (simp only: word_unat_eq_iff)
  qed
  have "log2_loop (2 ^ Suc n) count = log2_loop (2 ^ n) (count + 1)"
    using gt by (subst log2_loop.simps) (simp only: dr if_True)
  then show ?case
    using Suc by simp
qed

lemma log2_int_pow: "n < 64 \<Longrightarrow> log2_int (2 ^ n) = int n"
  by (simp add: log2_int_def log2_loop_pow)

lemma set_unique_fresh: "set_unique (replicate m empty_line)"
  by (simp add: set_unique_def empty_line_def)

lemma create_cache_fresh:
  assumes "b + k \<le> a" "a \<le> 30"
  shows "\<exists>c. create_cache (2 ^ a) (2 ^ k) (2 ^ b) pol = Some c \<and> wf_cache c \<and> tags_unique c
           \<and> policy c = pol \<and> hits c = 0 \<and> misses c = 0 \<and> reads c = 0 \<and> writes c = 0"
proof -
  have d: "(2 :: int) ^ k * 2 ^ b = 2 ^ (k + b)"
    by (simp add: power_add)
  have "(2 :: int) ^ (k + b) \<le> 2 ^ 30"
    using assms by (intro power_increasing) simp_all
  then have dmax1: "(2 :: int) ^ (k + b) \<le> INT_MAX"
    by (simp add: INT_MAX_def)
  have "- 2147483648 \<le> (0 :: int)"
    by simp
  also have "(0 :: int) \<le> 2 ^ (k + b)"
    by simp
  finally have dmax2: "INT_MIN \<le> (2 :: int) ^ (k + b)"
    by (simp only: INT_MIN_def)
  note dmax = dmax1 dmax2
  have n: "(2 :: int) ^ a sdiv 2 ^ (k + b) = 2 ^ (a - (k + b))"
    using assms by (simp add: signed_divide_int_def power_diff)
  have lb: "log2_int (2 ^ b) = int b"
    using assms by (intro log2_int_pow) simp
  have ls: "log2_int (2 ^ (a - (k + b))) = int (a - (k + b))"
    using assms by (intro log2_int_pow) simp
  let ?c = "\<lparr>sets_num = 2 ^ (a - (k + b)), set_lines = 2 ^ k, block_size = 2 ^ b,
             block_bits = int b, set_bits = int (a - (k + b)), policy = pol,
             lines = replicate (nat (2 ^ (a - (k + b)))) (replicate (nat (2 ^ k)) empty_line),
             hits = 0, misses = 0, reads = 0, writes = 0\<rparr>"
  have "(2 :: int) ^ (a - (k + b)) \<le> 2 ^ 30"
    using assms by (intro power_increasing) simp_all
  then have nmax: "(2 :: int) ^ (a - (k + b)) \<le> INT_MAX"
    by (simp add: INT_MAX_def)
  have cc: "create_cache (2 ^ a) (2 ^ k) (2 ^ b) pol = Some ?c"
    using dmax nmax by (simp add: create_cache_def d n lb ls Let_def)
  have nat_pow: "\<And>m. nat ((2 :: int) ^ m) = 2 ^ m"
    by (simp add: nat_power_eq)
  have "(2 :: int) ^ k \<le> 2 ^ 30"
    using assms by (intro power_increasing) simp_all
  then have kmax: "(2 :: int) ^ k \<le> INT_MAX"
    by (simp add: INT_MAX_def)
  have "wf_cache ?c"
    using assms kmax by (simp add: wf_cache_def geometry_ok_def nat_pow list_all_length)
  moreover have "tags_unique ?c"
    by (simp add: tags_unique_def list_all_length set_unique_fresh)
  ultimately show ?thesis
    using cc by simp
qed

subsection \<open>What the scan selects\<close>

lemma select_list_full:
  assumes "\<forall>l \<in> set ls. valid l \<noteq> 0"
  shows "(select_list ls i r0 m = r0 \<and> (\<forall>l \<in> set ls. age l < m))
       \<or> (int i \<le> select_list ls i r0 m \<and> select_list ls i r0 m < int i + int (length ls)
          \<and> m \<le> age (ls ! (nat (select_list ls i r0 m) - i))
          \<and> (\<forall>j < length ls. age (ls ! j) \<le> age (ls ! (nat (select_list ls i r0 m) - i)))
          \<and> (\<forall>j < length ls. nat (select_list ls i r0 m) - i < j
                \<longrightarrow> age (ls ! j) < age (ls ! (nat (select_list ls i r0 m) - i))))"
  using assms
proof (induction ls arbitrary: i r0 m)
  case Nil
  show ?case by simp
next
  case (Cons l ls)
  have v: "valid l \<noteq> 0" and vs: "\<forall>l \<in> set ls. valid l \<noteq> 0"
    using Cons.prems by simp_all
  show ?case
  proof (cases "m \<le> age l")
    case True
    let ?r = "select_list ls (Suc i) (int i) (age l)"
    have eq: "select_list (l # ls) i r0 m = ?r"
      using v True by simp
    from Cons.IH [OF vs, of "Suc i" "int i" "age l"]
    consider (stay) "?r = int i" "\<forall>x \<in> set ls. age x < age l"
      | (move) "int (Suc i) \<le> ?r" "?r < int (Suc i) + int (length ls)"
          "age l \<le> age (ls ! (nat ?r - Suc i))"
          "\<forall>j < length ls. age (ls ! j) \<le> age (ls ! (nat ?r - Suc i))"
          "\<forall>j < length ls. nat ?r - Suc i < j \<longrightarrow> age (ls ! j) < age (ls ! (nat ?r - Suc i))"
      by blast
    then show ?thesis
    proof cases
      case stay
      have "\<forall>j < length (l # ls). age ((l # ls) ! j) \<le> age l"
        using stay(2) by (auto simp add: nth_Cons' less_imp_le)
      moreover have "\<forall>j < length (l # ls). 0 < j \<longrightarrow> age ((l # ls) ! j) < age l"
        using stay(2) by (auto simp add: nth_Cons')
      ultimately show ?thesis
        using True stay(1) unfolding eq by simp
    next
      case move
      let ?p = "nat ?r - Suc i"
      have p: "nat ?r - i = Suc ?p"
        using move(1) by linarith
      have "\<forall>j < length (l # ls). age ((l # ls) ! j) \<le> age (ls ! ?p)"
        using move(3,4) by (auto simp add: nth_Cons')
      moreover have "\<forall>j < length (l # ls). Suc ?p < j \<longrightarrow> age ((l # ls) ! j) < age (ls ! ?p)"
        using move(5) by (auto simp add: nth_Cons')
      moreover have "m \<le> age (ls ! ?p)"
        using True move(3) by simp
      ultimately show ?thesis
        using move(1,2) unfolding eq p by simp
    qed
  next
    case False
    let ?r = "select_list ls (Suc i) r0 m"
    have eq: "select_list (l # ls) i r0 m = ?r"
      using v False by simp
    from Cons.IH [OF vs, of "Suc i" r0 m]
    consider (stay) "?r = r0" "\<forall>x \<in> set ls. age x < m"
      | (move) "int (Suc i) \<le> ?r" "?r < int (Suc i) + int (length ls)"
          "m \<le> age (ls ! (nat ?r - Suc i))"
          "\<forall>j < length ls. age (ls ! j) \<le> age (ls ! (nat ?r - Suc i))"
          "\<forall>j < length ls. nat ?r - Suc i < j \<longrightarrow> age (ls ! j) < age (ls ! (nat ?r - Suc i))"
      by blast
    then show ?thesis
    proof cases
      case stay
      moreover have "age l < m"
        using False by (simp add: not_le)
      ultimately show ?thesis
        unfolding eq by simp
    next
      case move
      let ?p = "nat ?r - Suc i"
      have p: "nat ?r - i = Suc ?p"
        using move(1) by linarith
      have "age l < m"
        using False by (simp add: not_le)
      then have "age l \<le> age (ls ! ?p)"
        using move(3) by simp
      then have "\<forall>j < length (l # ls). age ((l # ls) ! j) \<le> age (ls ! ?p)"
        using move(4) by (auto simp add: nth_Cons')
      moreover have "\<forall>j < length (l # ls). Suc ?p < j \<longrightarrow> age ((l # ls) ! j) < age (ls ! ?p)"
        using move(5) by (auto simp add: nth_Cons')
      ultimately show ?thesis
        using move(1,2,3) unfolding eq p by simp
    qed
  qed
qed

lemma victim_full:
  assumes "S \<noteq> []" "\<forall>l \<in> set S. valid l \<noteq> 0"
  shows "\<forall>j < length S. age (S ! j) \<le> age (S ! nat (victim S))
           \<and> (nat (victim S) < j \<longrightarrow> age (S ! j) < age (S ! nat (victim S)))"
proof -
  have "victim S \<noteq> - 1"
    using victim_range [OF assms(1)] by simp
  with select_list_full [OF assms(2), of 0 "- 1" 0] show ?thesis
    by (auto simp add: victim_def)
qed

lemma select_list_invalid:
  assumes "\<exists>l \<in> set ls. valid l = 0"
  shows "int i \<le> select_list ls i r0 m \<and> select_list ls i r0 m < int i + int (length ls)
           \<and> valid (ls ! (nat (select_list ls i r0 m) - i)) = 0"
  using assms
proof (induction ls arbitrary: i r0 m)
  case Nil
  then show ?case by simp
next
  case (Cons l ls)
  show ?case
  proof (cases "valid l = 0")
    case True
    then show ?thesis by simp
  next
    case False
    with Cons.prems have ex: "\<exists>l \<in> set ls. valid l = 0"
      by auto
    obtain r' m' where eq: "select_list (l # ls) i r0 m = select_list ls (Suc i) r' m'"
      using False by (cases "m \<le> age l") auto
    let ?r = "select_list ls (Suc i) r' m'"
    have IH: "int (Suc i) \<le> ?r" "?r < int (Suc i) + int (length ls)"
      "valid (ls ! (nat ?r - Suc i)) = 0"
      using Cons.IH [OF ex, of "Suc i" r' m'] by simp_all
    have "nat ?r - i = Suc (nat ?r - Suc i)"
      using IH(1) by linarith
    then show ?thesis
      using IH unfolding eq by simp
  qed
qed


lemma load_set_line:
  assumes "S \<noteq> []" "j < length S"
  shows "load_set t S ! j =
    (if int j = victim S then \<lparr>valid = 1, tag = t, age = 0\<rparr>
     else if valid (S ! j) = 0 then S ! j
     else (S ! j)\<lparr>age := age (S ! j) + 1\<rparr>)"
  using assms victim_range [OF assms(1)]
  by (auto simp add: load_set_def aged_from_nth age_line_def nth_list_update)


subsection \<open>Successive loads into one set\<close>






lemma warm_lru_reached:
  "run_trace 0 assoc_lru [(CHR ''R'', 0), (CHR ''R'', 4), (CHR ''R'', 8), (CHR ''R'', 12)]
     = Some warm_lru"
  by code_simp

lemma warm_lru_victims:
  "Option.bind (simulate_read warm_lru 0 0) (\<lambda>c1. load_victims c1 [16, 20, 24, 28])
     = Some [1, 2, 3, 0]"
  by code_simp


subsection \<open>Insertion order without access-time aging\<close>

lemma select_list_before_invalid:
  assumes "\<exists>l \<in> set ls. valid l = 0"
  shows "\<forall>j < nat (select_list ls i r0 m) - i. valid (ls ! j) \<noteq> 0"
  using assms
proof (induction ls arbitrary: i r0 m)
  case Nil
  then show ?case by simp
next
  case (Cons l ls)
  show ?case
  proof (cases "valid l = 0")
    case True
    then show ?thesis by simp
  next
    case False
    with Cons.prems have ex: "\<exists>l \<in> set ls. valid l = 0"
      by auto
    obtain r' m' where eq: "select_list (l # ls) i r0 m = select_list ls (Suc i) r' m'"
      using False by (cases "m \<le> age l") auto
    let ?r = "select_list ls (Suc i) r' m'"
    have lo: "int (Suc i) \<le> ?r"
      using select_list_invalid [OF ex, of "Suc i" r' m'] by simp
    have d: "nat ?r - i = Suc (nat ?r - Suc i)"
      using lo by linarith
    have IH: "\<forall>j < nat ?r - Suc i. valid (ls ! j) \<noteq> 0"
      using Cons.IH [OF ex, of "Suc i" r' m'] .
    show ?thesis
      unfolding eq d using False IH by (auto simp add: nth_Cons' )
  qed
qed

lemma victim_prefix:
  assumes "\<forall>i < length S. valid (S ! i) \<noteq> 0 \<longleftrightarrow> i < k" "k < length S"
  shows "victim S = int k"
proof -
  have "valid (S ! k) = 0"
    using assms by auto
  moreover have "S ! k \<in> set S"
    using assms(2) by simp
  ultimately have ex: "\<exists>l \<in> set S. valid l = 0"
    by blast
  have r: "0 \<le> victim S" "victim S < int (length S)" "valid (S ! nat (victim S)) = 0"
    using select_list_invalid [OF ex, of 0 "- 1" 0] by (simp_all add: victim_def)
  have before: "\<forall>j < nat (victim S). valid (S ! j) \<noteq> 0"
    using select_list_before_invalid [OF ex, of 0 "- 1" 0] by (simp add: victim_def)
  have rn: "nat (victim S) < length S"
    using r(1,2) by linarith
  have "\<not> nat (victim S) < k"
    using r(3) rn assms(1) by auto
  moreover have "\<not> k < nat (victim S)"
    using before \<open>valid (S ! k) = 0\<close> by auto
  ultimately show ?thesis
    using r(1) by linarith
qed

lemma set_fifo_load:
  assumes "set_fifo S st n" "S \<noteq> []" "length S < 2 ^ 64"
  shows "set_fifo (load_set t S) (st[nat (victim S) := n]) (Suc n)"
proof -
  let ?r = "nat (victim S)"
  let ?S' = "load_set t S"
  let ?st' = "st[?r := n]"
  from assms(1) obtain k where
    len: "length st = length S"
    and k: "k \<le> length S"
    and pre: "\<forall>i < length S. valid (S ! i) \<noteq> 0 \<longleftrightarrow> i < k"
    and small: "\<forall>i < k. unat (age (S ! i)) < k"
    and cnt: "\<forall>i < length S. valid (S ! i) \<noteq> 0 \<longrightarrow> unat (age (S ! i)) + st ! i + 1 = n"
    and inj: "\<forall>i < length S. \<forall>j < length S.
                valid (S ! i) \<noteq> 0 \<and> valid (S ! j) \<noteq> 0 \<and> st ! i = st ! j \<longrightarrow> i = j"
    unfolding set_fifo_def by blast
  have vr: "0 \<le> victim S" "victim S < int (length S)"
    using victim_range [OF assms(2)] by simp_all
  then have r: "?r < length S" "int ?r = victim S"
    by simp_all
  have vic: "int i = victim S \<longleftrightarrow> i = ?r" for i
    using r(2) by auto
  have inc: "unat (age (S ! i) + 1) = unat (age (S ! i)) + 1" if "i < length S" "valid (S ! i) \<noteq> 0" for i
  proof -
    have "i < k"
      using pre that by simp
    then have "unat (age (S ! i)) < k"
      using small by simp
    then have "unat (age (S ! i)) + 1 < 2 ^ 64"
      using k assms(3) by linarith
    then show ?thesis
      by (rule unat_inc)
  qed
  have new: "valid (?S' ! ?r) \<noteq> 0" "unat (age (?S' ! ?r)) = 0"
    using r by (simp_all add: load_set_line [OF assms(2)])
  have keep: "valid (?S' ! i) = valid (S ! i)" if "i < length S" "i \<noteq> ?r" for i
    using that by (simp add: load_set_line [OF assms(2)] vic)
  have older: "unat (age (?S' ! i)) = unat (age (S ! i)) + 1"
    if "i < length S" "i \<noteq> ?r" "valid (S ! i) \<noteq> 0" for i
    using that inc [OF that(1,3)] by (simp add: load_set_line [OF assms(2)] vic)
  have below: "st ! i < n" if "i < length S" "valid (S ! i) \<noteq> 0" for i
    using cnt that by fastforce

  have shape: "\<exists>k' \<le> length ?S'. (\<forall>i < length ?S'. valid (?S' ! i) \<noteq> 0 \<longleftrightarrow> i < k')
                  \<and> (\<forall>i < k'. unat (age (?S' ! i)) < k')"
  proof (cases "k < length S")
    case True
    have rk: "?r = k"
      using victim_prefix [OF pre True] by simp
    have "\<forall>i < length ?S'. valid (?S' ! i) \<noteq> 0 \<longleftrightarrow> i < Suc k"
    proof (intro allI impI)
      fix i
      assume "i < length ?S'"
      then have i: "i < length S"
        by simp
      show "valid (?S' ! i) \<noteq> 0 \<longleftrightarrow> i < Suc k"
      proof (cases "i = ?r")
        case True
        with new(1) rk show ?thesis by simp
      next
        case False
        with keep [OF i False] pre i rk show ?thesis by auto
      qed
    qed
    moreover have "\<forall>i < Suc k. unat (age (?S' ! i)) < Suc k"
    proof (intro allI impI)
      fix i
      assume i: "i < Suc k"
      show "unat (age (?S' ! i)) < Suc k"
      proof (cases "i = ?r")
        case True
        with new(2) show ?thesis by simp
      next
        case False
        then have ik: "i < k"
          using i rk by simp
        then have il: "i < length S" and iv: "valid (S ! i) \<noteq> 0"
          using k pre by auto
        show ?thesis
          using older [OF il False iv] small ik by simp
      qed
    qed
    moreover have "Suc k \<le> length ?S'"
      using True by simp
    ultimately show ?thesis
      by blast
  next
    case False
    then have kl: "k = length S"
      using k by simp
    have full: "\<forall>l \<in> set S. valid l \<noteq> 0"
      using pre kl by (auto simp add: in_set_conv_nth)
    have rv: "valid (S ! ?r) \<noteq> 0"
      using pre kl r(1) by simp
    have max: "\<forall>j < length S. age (S ! j) \<le> age (S ! ?r)"
      using victim_full [OF assms(2) full] by simp
    have strict: "unat (age (S ! i)) < unat (age (S ! ?r))" if "i < length S" "i \<noteq> ?r" for i
    proof -
      have iv: "valid (S ! i) \<noteq> 0"
        using pre kl that(1) by simp
      have le: "unat (age (S ! i)) \<le> unat (age (S ! ?r))"
        using max that(1) by (simp add: word_le_nat_alt)
      have "unat (age (S ! i)) \<noteq> unat (age (S ! ?r))"
      proof
        assume e: "unat (age (S ! i)) = unat (age (S ! ?r))"
        have "unat (age (S ! i)) + st ! i + 1 = n" "unat (age (S ! ?r)) + st ! ?r + 1 = n"
          using cnt that(1) iv r(1) rv by simp_all
        with e have "st ! i = st ! ?r"
          by simp
        with inj that(1) r(1) iv rv have "i = ?r"
          by blast
        with that(2) show False
          by simp
      qed
      with le show ?thesis
        by simp
    qed
    have "\<forall>i < length ?S'. valid (?S' ! i) \<noteq> 0 \<longleftrightarrow> i < k"
    proof (intro allI impI)
      fix i
      assume "i < length ?S'"
      then have i: "i < length S"
        by simp
      show "valid (?S' ! i) \<noteq> 0 \<longleftrightarrow> i < k"
      proof (cases "i = ?r")
        case True
        with new(1) r(1) kl show ?thesis by simp
      next
        case False
        with keep [OF i False] pre i show ?thesis by simp
      qed
    qed
    moreover have "\<forall>i < k. unat (age (?S' ! i)) < k"
    proof (intro allI impI)
      fix i
      assume ik: "i < k"
      then have il: "i < length S"
        using kl by simp
      show "unat (age (?S' ! i)) < k"
      proof (cases "i = ?r")
        case True
        with new(2) ik show ?thesis by simp
      next
        case False
        have iv: "valid (S ! i) \<noteq> 0"
          using pre il ik by simp
        have "unat (age (S ! ?r)) < k"
          using small r(1) kl by simp
        with older [OF il False iv] strict [OF il False] show ?thesis
          by simp
      qed
    qed
    moreover have "k \<le> length ?S'"
      using kl by simp
    ultimately show ?thesis
      by blast
  qed

  have cnt': "\<forall>i < length ?S'. valid (?S' ! i) \<noteq> 0 \<longrightarrow> unat (age (?S' ! i)) + ?st' ! i + 1 = Suc n"
  proof (intro allI impI)
    fix i
    assume "i < length ?S'" and v: "valid (?S' ! i) \<noteq> 0"
    then have i: "i < length S"
      by simp
    show "unat (age (?S' ! i)) + ?st' ! i + 1 = Suc n"
    proof (cases "i = ?r")
      case True
      with new(2) r(1) len show ?thesis by simp
    next
      case False
      have iv: "valid (S ! i) \<noteq> 0"
        using v keep [OF i False] by simp
      have "unat (age (S ! i)) + st ! i + 1 = n"
        using cnt i iv by simp
      with older [OF i False iv] False show ?thesis
        by simp
    qed
  qed

  have inj': "\<forall>i < length ?S'. \<forall>j < length ?S'.
                valid (?S' ! i) \<noteq> 0 \<and> valid (?S' ! j) \<noteq> 0 \<and> ?st' ! i = ?st' ! j \<longrightarrow> i = j"
  proof (intro allI impI)
    fix i j
    assume "i < length ?S'" "j < length ?S'"
      and h: "valid (?S' ! i) \<noteq> 0 \<and> valid (?S' ! j) \<noteq> 0 \<and> ?st' ! i = ?st' ! j"
    then have i: "i < length S" and j: "j < length S"
      by simp_all
    show "i = j"
    proof (cases "i = ?r")
      case True
      note ir = this
      show ?thesis
      proof (cases "j = ?r")
        case True
        with ir show ?thesis by simp
      next
        case False
        have "valid (S ! j) \<noteq> 0"
          using h keep [OF j False] by simp
        from below [OF j this] h ir False r(1) len show ?thesis
          by simp
      qed
    next
      case False
      note ir = this
      have iv: "valid (S ! i) \<noteq> 0"
        using h keep [OF i ir] by simp
      show ?thesis
      proof (cases "j = ?r")
        case True
        from below [OF i iv] h ir True r(1) len show ?thesis
          by simp
      next
        case False
        have "valid (S ! j) \<noteq> 0"
          using h keep [OF j False] by simp
        with inj i j iv h ir False show ?thesis
          by simp
      qed
    qed
  qed
  show ?thesis
    unfolding set_fifo_def using len shape cnt' inj' by simp
qed

lemma fifo_inv_counters [simp]:
  "fifo_inv (c\<lparr>hits := x\<rparr>) h = fifo_inv c h"
  "fifo_inv (c\<lparr>misses := x\<rparr>) h = fifo_inv c h"
  "fifo_inv (c\<lparr>reads := x\<rparr>) h = fifo_inv c h"
  "fifo_inv (c\<lparr>writes := x\<rparr>) h = fifo_inv c h"
  by (simp_all add: fifo_inv_def)

lemma policy_counters [simp]:
  "policy (c\<lparr>hits := x\<rparr>) = policy c"
  "policy (c\<lparr>misses := x\<rparr>) = policy c"
  "policy (c\<lparr>reads := x\<rparr>) = policy c"
  "policy (c\<lparr>writes := x\<rparr>) = policy c"
  by simp_all

lemma record_load_ok:
  assumes "wf_cache c"
  shows "record_load c h a =
    Some (h[unat (index_of c a) :=
              ((fst (h ! unat (index_of c a)))
                 [nat (victim (the_set c (index_of c a))) := snd (h ! unat (index_of c a))],
               Suc (snd (h ! unat (index_of c a))))])"
  using assms wf_index [OF assms, of a]
  by (simp add: record_load_def get_set_index_ok wf_geometry select_loop_ok)

lemma load_block_fifo:
  assumes "wf_cache c" "fifo_inv c h"
  shows "\<exists>c' h'. load_block c a = Some c' \<and> record_load c h a = Some h' \<and> wf_cache c'
           \<and> fifo_inv c' h' \<and> policy c' = policy c"
proof -
  let ?s = "index_of c a"
  let ?S = "the_set c ?s"
  let ?c' = "put_set c ?s (load_set (tag_of c a) ?S)"
  let ?h' = "h[unat ?s := ((fst (h ! unat ?s))[nat (victim ?S) := snd (h ! unat ?s)],
                           Suc (snd (h ! unat ?s)))]"
  have s: "unat ?s < length (lines c)"
    using assms(1) by (rule wf_index)
  have hl: "length h = length (lines c)"
    using assms(2) by (simp add: fifo_inv_def)
  have ne: "?S \<noteq> []"
    using assms(1) s by (rule wf_set_nonempty)
  have "int (length ?S) \<le> INT_MAX"
    using wf_set_length [OF assms(1) s] assms(1) by (simp add: wf_cache_def)
  then have small: "length ?S < 2 ^ 64"
    by (simp add: INT_MAX_def)
  have old: "set_fifo ?S (fst (h ! unat ?s)) (snd (h ! unat ?s))"
    using assms(2) s by (simp add: fifo_inv_def the_set_def)
  have new: "set_fifo (load_set (tag_of c a) ?S)
               ((fst (h ! unat ?s))[nat (victim ?S) := snd (h ! unat ?s)]) (Suc (snd (h ! unat ?s)))"
    using old ne small by (rule set_fifo_load)
  have "fifo_inv ?c' ?h'"
    unfolding fifo_inv_def
  proof (intro conjI allI impI)
    show "length ?h' = length (lines ?c')"
      using hl by simp
  next
    fix t
    assume "t < length (lines ?c')"
    then have t: "t < length (lines c)"
      by simp
    show "set_fifo (lines ?c' ! t) (fst (?h' ! t)) (snd (?h' ! t))"
    proof (cases "t = unat ?s")
      case True
      with new s hl show ?thesis
        by (simp add: put_set_def)
    next
      case False
      with assms(2) t show ?thesis
        by (simp add: fifo_inv_def put_set_def)
    qed
  qed
  then show ?thesis
    using assms(1) s by (simp add: load_block_ok record_load_ok wf_put_set)
qed

lemma prefetch_next_fifo:
  assumes "wf_cache c" "fifo_inv c h"
  shows "\<exists>c' h'. prefetch_next c a = Some c' \<and> record_prefetch c h a = Some h' \<and> wf_cache c'
           \<and> fifo_inv c' h' \<and> policy c' = policy c"
proof -
  have g: "geometry_ok c"
    using assms(1) by (rule wf_geometry)
  have sh: "shl (drop_bit (nat (block_bits c)) a + 1) (block_bits c) = Some (next_address c a)"
    using g by (simp add: next_address_def shl_def geometry_ok_def)
  let ?c1 = "c\<lparr>reads := reads c + 1\<rparr>"
  have "wf_cache ?c1" "fifo_inv ?c1 h"
    using assms by simp_all
  from load_block_fifo [OF this, of "next_address c a"] assms show ?thesis
    by (auto simp add: prefetch_next_def record_prefetch_def get_block_id_ok g sh find_line_ok)
qed

lemma fifo_hit:
  assumes "wf_cache c" "policy c \<noteq> POLICY_LRU" "find_line c a = Some (l, s)" "l \<noteq> - 1"
  shows "update_lru_on_access c s l = Some c"
    and "simulate_read c a pf = Some (c\<lparr>hits := hits c + 1\<rparr>)"
    and "simulate_write c a pf = Some (c\<lparr>hits := hits c + 1, writes := writes c + 1\<rparr>)"
    and "record_read c h a pf = Some h"
    and "record_write c h a pf = Some h"
  using assms
  by (simp_all add: update_lru_on_access_def simulate_read_hit simulate_write_hit
      record_read_def record_write_def)

lemma simulate_read_fifo:
  assumes "wf_cache c" "policy c \<noteq> POLICY_LRU" "fifo_inv c h"
  shows "\<exists>c' h'. simulate_read c a pf = Some c' \<and> record_read c h a pf = Some h' \<and> wf_cache c'
           \<and> fifo_inv c' h' \<and> policy c' = policy c"
proof -
  obtain l where fl: "find_line c a = Some (l, index_of c a)"
    using find_line_total [OF assms(1)] by blast
  show ?thesis
  proof (cases "l = - 1")
    case False
    with assms show ?thesis
      by (simp add: fifo_hit [OF assms(1,2) fl False])
  next
    case True
    let ?c0 = "c\<lparr>misses := misses c + 1, reads := reads c + 1\<rparr>"
    have "wf_cache ?c0" "fifo_inv ?c0 h"
      using assms by simp_all
    from load_block_fifo [OF this, of a] obtain c1 h1 where
      c1: "load_block ?c0 a = Some c1" "record_load ?c0 h a = Some h1" "wf_cache c1"
        "fifo_inv c1 h1" "policy c1 = policy c"
      by auto
    from prefetch_next_fifo [OF c1(3,4), of a] c1 fl True show ?thesis
      by (auto simp add: simulate_read_miss record_read_def)
  qed
qed

lemma simulate_write_fifo:
  assumes "wf_cache c" "policy c \<noteq> POLICY_LRU" "fifo_inv c h"
  shows "\<exists>c' h'. simulate_write c a pf = Some c' \<and> record_write c h a pf = Some h' \<and> wf_cache c'
           \<and> fifo_inv c' h' \<and> policy c' = policy c"
proof -
  obtain l where fl: "find_line c a = Some (l, index_of c a)"
    using find_line_total [OF assms(1)] by blast
  show ?thesis
  proof (cases "l = - 1")
    case False
    with assms show ?thesis
      by (simp add: fifo_hit [OF assms(1,2) fl False])
  next
    case True
    let ?c0 = "c\<lparr>misses := misses c + 1, reads := reads c + 1\<rparr>"
    have "wf_cache ?c0" "fifo_inv ?c0 h"
      using assms by simp_all
    from load_block_fifo [OF this, of a] obtain c1 h1 where
      c1: "load_block ?c0 a = Some c1" "record_load ?c0 h a = Some h1" "wf_cache c1"
        "fifo_inv c1 h1" "policy c1 = policy c"
      by auto
    let ?c2 = "c1\<lparr>writes := writes c1 + 1\<rparr>"
    have "wf_cache ?c2" "fifo_inv ?c2 h1"
      using c1 by simp_all
    from prefetch_next_fifo [OF this, of a] c1 fl True show ?thesis
      by (auto simp add: simulate_write_miss record_write_def Let_def)
  qed
qed

lemma run_trace_fifo:
  assumes "wf_cache c" "policy c \<noteq> POLICY_LRU" "fifo_inv c h"
  shows "\<exists>c' h'. run_trace pf c tr = Some c' \<and> record_trace pf c h tr = Some h' \<and> wf_cache c'
           \<and> fifo_inv c' h' \<and> policy c' = policy c"
  using assms
proof (induction tr arbitrary: c h)
  case Nil
  then show ?case by simp
next
  case (Cons r tr)
  have "\<exists>c1 h1. access pf c r = Some c1 \<and> record_access pf c h r = Some h1 \<and> wf_cache c1
           \<and> fifo_inv c1 h1 \<and> policy c1 = policy c"
    using simulate_read_fifo [OF Cons.prems, of "snd r" pf] simulate_write_fifo [OF Cons.prems, of "snd r" pf]
      Cons.prems
    by (simp add: access_def record_access_def)
  then obtain c1 h1 where c1: "access pf c r = Some c1" "record_access pf c h r = Some h1"
      "wf_cache c1" "fifo_inv c1 h1" "policy c1 = policy c"
    by blast
  have "policy c1 \<noteq> POLICY_LRU"
    using c1(5) Cons.prems(2) by simp
  from Cons.IH [OF c1(3) this c1(4)] c1 show ?case
    by auto
qed

lemma create_cache_lines:
  "create_cache cs asc bs pol = Some c \<Longrightarrow> \<forall>S \<in> set (lines c). \<forall>l \<in> set S. valid l = 0"
  by (auto simp add: create_cache_def Let_def empty_line_def split: if_splits)

lemma fifo_inv_fresh:
  assumes "\<forall>S \<in> set (lines c). \<forall>l \<in> set S. valid l = 0"
  shows "fifo_inv c (fresh_history c)"
  unfolding fifo_inv_def
proof (intro conjI allI impI)
  show "length (fresh_history c) = length (lines c)"
    by (simp add: fresh_history_def)
next
  fix s
  assume s: "s < length (lines c)"
  let ?S = "lines c ! s"
  have inv: "\<forall>i < length ?S. valid (?S ! i) = 0"
    using assms s by (metis nth_mem)
  have "(\<forall>i < length ?S. valid (?S ! i) \<noteq> 0 \<longleftrightarrow> i < 0) \<and> (\<forall>i < (0 :: nat). unat (age (?S ! i)) < 0)"
    using inv by simp
  then have "\<exists>k \<le> length ?S. (\<forall>i < length ?S. valid (?S ! i) \<noteq> 0 \<longleftrightarrow> i < k)
               \<and> (\<forall>i < k. unat (age (?S ! i)) < k)"
    by blast
  then show "set_fifo ?S (fst (fresh_history c ! s)) (snd (fresh_history c ! s))"
    using s inv by (simp add: set_fifo_def fresh_history_def)
qed

lemma fifo_inv_order:
  assumes "fifo_inv c h" "s < length (lines c)" "i < length (lines c ! s)" "j < length (lines c ! s)"
    and "valid (lines c ! s ! i) \<noteq> 0" "valid (lines c ! s ! j) \<noteq> 0"
    and "fst (h ! s) ! i < fst (h ! s) ! j"
  shows "age (lines c ! s ! j) < age (lines c ! s ! i)"
proof -
  have sf: "set_fifo (lines c ! s) (fst (h ! s)) (snd (h ! s))"
    using assms(1,2) by (simp add: fifo_inv_def)
  then have "unat (age (lines c ! s ! i)) + fst (h ! s) ! i + 1 = snd (h ! s)"
    "unat (age (lines c ! s ! j)) + fst (h ! s) ! j + 1 = snd (h ! s)"
    using assms(3-6) by (simp_all add: set_fifo_def)
  with assms(7) show ?thesis
    by (simp add: word_less_nat_alt)
qed

lemma fifo_inv_victim:
  assumes "wf_cache c" "fifo_inv c h" "unat s < length (lines c)"
    and "list_all (\<lambda>x. valid x \<noteq> 0) (lines c ! unat s)"
  shows "\<exists>r. select_loop c s 0 (- 1) 0 = Some r \<and> 0 \<le> r \<and> r < set_lines c
           \<and> (\<forall>j < length (lines c ! unat s). fst (h ! unat s) ! nat r \<le> fst (h ! unat s) ! j)"
proof -
  let ?S = "lines c ! unat s"
  let ?r = "victim ?S"
  have S: "the_set c s = ?S"
    by (simp add: the_set_def)
  have ne: "?S \<noteq> []"
    using wf_set_nonempty [OF assms(1,3)] S by simp
  have len: "int (length ?S) = set_lines c"
    using wf_set_length [OF assms(1,3)] S by simp
  have full: "\<forall>l \<in> set ?S. valid l \<noteq> 0"
    using assms(4) by (simp add: list_all_iff)
  have r: "0 \<le> ?r" "?r < int (length ?S)"
    using victim_range [OF ne] by simp_all
  then have rn: "nat ?r < length ?S"
    by simp
  have sf: "set_fifo ?S (fst (h ! unat s)) (snd (h ! unat s))"
    using assms(2,3) by (simp add: fifo_inv_def)
  have "fst (h ! unat s) ! nat ?r \<le> fst (h ! unat s) ! j" if j: "j < length ?S" for j
  proof -
    have "unat (age (?S ! j)) \<le> unat (age (?S ! nat ?r))"
      using victim_full [OF ne full] j by (simp add: word_le_nat_alt)
    moreover have "unat (age (?S ! j)) + fst (h ! unat s) ! j + 1 = snd (h ! unat s)"
      "unat (age (?S ! nat ?r)) + fst (h ! unat s) ! nat ?r + 1 = snd (h ! unat s)"
      using sf j rn full by (simp_all add: set_fifo_def)
    ultimately show ?thesis
      by simp
  qed
  then show ?thesis
    using select_loop_ok [OF assms(1,3)] r len S by simp
qed

lemma create_assoc_fifo: "create_cache 16 4 4 POLICY_FIFO = Some assoc_fifo"
  by code_simp

lemma assoc_fifo_run:
  "map_option lines
     (run_trace 0 assoc_fifo
        [(CHR ''R'', 0), (CHR ''R'', 4), (CHR ''R'', 0), (CHR ''R'', 8), (CHR ''R'', 12),
         (CHR ''R'', 16)])
     = Some [[\<lparr>valid = 1, tag = 4, age = 0\<rparr>, \<lparr>valid = 1, tag = 1, age = 3\<rparr>,
              \<lparr>valid = 1, tag = 2, age = 2\<rparr>, \<lparr>valid = 1, tag = 3, age = 1\<rparr>]]"
  "record_trace 0 assoc_fifo (fresh_history assoc_fifo)
        [(CHR ''R'', 0), (CHR ''R'', 4), (CHR ''R'', 0), (CHR ''R'', 8), (CHR ''R'', 12),
         (CHR ''R'', 16)]
     = Some [([4, 1, 2, 3], 5)]"
  by code_simp+


subsection \<open>Ages of the valid lines of a set stay different\<close>

lemma set_ages_mono: "set_ages (Suc m) S \<Longrightarrow> set_ages m S"
  by (fastforce simp add: set_ages_def)

lemma set_ages_step:
  assumes "set_ages (Suc m) S"
    and len: "length S' = length S"
    and hit: "\<forall>i < length S. int i = l \<and> valid (S' ! i) \<noteq> 0 \<longrightarrow> age (S' ! i) = 0"
    and other: "\<forall>i < length S. int i \<noteq> l \<and> valid (S' ! i) \<noteq> 0 \<longrightarrow>
                  valid (S ! i) \<noteq> 0 \<and> age (S' ! i) = age (S ! i) + 1"
  shows "set_ages m S'"
proof -
  have m: "Suc m < 2 ^ 64"
    using assms(1) by (simp add: set_ages_def)
  have b: "unat (age (S ! i)) + Suc m < 2 ^ 64" if "i < length S" "valid (S ! i) \<noteq> 0" for i
    using assms(1) that by (simp add: set_ages_def)
  have inc: "unat (age (S ! i) + 1) = unat (age (S ! i)) + 1" if "i < length S" "valid (S ! i) \<noteq> 0" for i
    using b [OF that] by (intro unat_inc) simp
  have inj: "i = j" if "i < length S" "j < length S" "valid (S ! i) \<noteq> 0" "valid (S ! j) \<noteq> 0"
    "age (S ! i) = age (S ! j)" for i j
    using assms(1) that unfolding set_ages_def by blast
  have new: "unat (age (S' ! i)) = 0" if "i < length S" "valid (S' ! i) \<noteq> 0" "int i = l" for i
    using hit that by simp
  have old: "valid (S ! i) \<noteq> 0 \<and> unat (age (S' ! i)) = unat (age (S ! i)) + 1"
    if "i < length S" "valid (S' ! i) \<noteq> 0" "int i \<noteq> l" for i
    using other that inc [of i] by simp
  have B: "\<forall>i < length S'. valid (S' ! i) \<noteq> 0 \<longrightarrow> unat (age (S' ! i)) + m < 2 ^ 64"
  proof (intro allI impI)
    fix i
    assume i: "i < length S'" "valid (S' ! i) \<noteq> 0"
    show "unat (age (S' ! i)) + m < 2 ^ 64"
    proof (cases "int i = l")
      case True
      with new [of i] i len m show ?thesis by simp
    next
      case False
      with old [of i] b [of i] i len show ?thesis by simp
    qed
  qed
  have D: "\<forall>i < length S'. \<forall>j < length S'.
        valid (S' ! i) \<noteq> 0 \<and> valid (S' ! j) \<noteq> 0 \<and> age (S' ! i) = age (S' ! j) \<longrightarrow> i = j"
  proof (intro allI impI)
    fix i j
    assume i: "i < length S'" and j: "j < length S'"
      and h: "valid (S' ! i) \<noteq> 0 \<and> valid (S' ! j) \<noteq> 0 \<and> age (S' ! i) = age (S' ! j)"
    have i': "i < length S" and j': "j < length S"
      using i j len by simp_all
    have e: "unat (age (S' ! i)) = unat (age (S' ! j))"
      using h by simp
    show "i = j"
    proof (cases "int i = l")
      case True
      note il = this
      show ?thesis
      proof (cases "int j = l")
        case True
        with il show ?thesis by simp
      next
        case False
        with new [OF i' _ il] old [OF j' _ False] h e show ?thesis by simp
      qed
    next
      case False
      note il = this
      show ?thesis
      proof (cases "int j = l")
        case True
        with new [OF j' _ True] old [OF i' _ il] h e show ?thesis by simp
      next
        case False
        have "valid (S ! i) \<noteq> 0" "valid (S ! j) \<noteq> 0" "unat (age (S ! i)) = unat (age (S ! j))"
          using old [OF i' _ il] old [OF j' _ False] h e by simp_all
        then show ?thesis
          using inj [OF i' j'] by (simp add: word_unat_eq_iff)
      qed
    qed
  qed
  show ?thesis
    unfolding set_ages_def using m B D by simp
qed

lemma set_ages_aged:
  assumes "set_ages (Suc m) S"
  shows "set_ages m (aged_from l 0 S)"
  using assms
proof (rule set_ages_step)
  show "length (aged_from l 0 S) = length S"
    by simp
  show "\<forall>i < length S. int i = l \<and> valid (aged_from l 0 S ! i) \<noteq> 0 \<longrightarrow> age (aged_from l 0 S ! i) = 0"
    by (auto simp add: aged_from_nth age_line_def)
  show "\<forall>i < length S. int i \<noteq> l \<and> valid (aged_from l 0 S ! i) \<noteq> 0 \<longrightarrow>
          valid (S ! i) \<noteq> 0 \<and> age (aged_from l 0 S ! i) = age (S ! i) + 1"
    by (auto simp add: aged_from_nth age_line_def)
qed

lemma set_ages_load:
  assumes "set_ages (Suc m) S" "S \<noteq> []"
  shows "set_ages m (load_set t S)"
  using assms(1)
proof (rule set_ages_step)
  show "length (load_set t S) = length S"
    by simp
  show "\<forall>i < length S. int i = victim S \<and> valid (load_set t S ! i) \<noteq> 0 \<longrightarrow> age (load_set t S ! i) = 0"
    by (simp add: load_set_line [OF assms(2)])
  show "\<forall>i < length S. int i \<noteq> victim S \<and> valid (load_set t S ! i) \<noteq> 0 \<longrightarrow>
          valid (S ! i) \<noteq> 0 \<and> age (load_set t S ! i) = age (S ! i) + 1"
    by (auto simp add: load_set_line [OF assms(2)])
qed

lemma ages_distinct_counters [simp]:
  "ages_distinct m (c\<lparr>hits := x\<rparr>) = ages_distinct m c"
  "ages_distinct m (c\<lparr>misses := x\<rparr>) = ages_distinct m c"
  "ages_distinct m (c\<lparr>reads := x\<rparr>) = ages_distinct m c"
  "ages_distinct m (c\<lparr>writes := x\<rparr>) = ages_distinct m c"
  by (simp_all add: ages_distinct_def)

lemma ages_distinct_mono: "ages_distinct (Suc m) c \<Longrightarrow> ages_distinct m c"
  by (simp add: ages_distinct_def set_ages_mono)

lemma ages_distinct_put_set:
  assumes "ages_distinct (Suc m) c" "unat s < length (lines c)" "set_ages m S"
  shows "ages_distinct m (put_set c s S)"
proof -
  have "set_ages m T" if "T \<in> set ((lines c)[unat s := S])" for T
  proof -
    from that have "T = S \<or> T \<in> set (lines c)"
      using set_update_subset_insert [of "lines c" "unat s" S] by auto
    with assms(1,3) show ?thesis
      by (auto simp add: ages_distinct_def set_ages_mono)
  qed
  then show ?thesis
    by (simp add: ages_distinct_def put_set_def)
qed

lemma ages_distinct_the_set:
  "ages_distinct m c \<Longrightarrow> unat s < length (lines c) \<Longrightarrow> set_ages m (the_set c s)"
  by (simp add: ages_distinct_def the_set_def)

lemma load_block_ages:
  assumes "wf_cache c" "ages_distinct (Suc m) c"
  shows "\<exists>c'. load_block c a = Some c' \<and> wf_cache c' \<and> ages_distinct m c'"
proof -
  let ?s = "index_of c a"
  have s: "unat ?s < length (lines c)"
    using assms(1) by (rule wf_index)
  have "set_ages m (load_set (tag_of c a) (the_set c ?s))"
    using ages_distinct_the_set [OF assms(2) s] wf_set_nonempty [OF assms(1) s]
    by (rule set_ages_load)
  with assms s show ?thesis
    by (simp add: load_block_ok wf_put_set ages_distinct_put_set)
qed

lemma prefetch_next_ages:
  assumes "wf_cache c" "ages_distinct (Suc m) c"
  shows "\<exists>c'. prefetch_next c a = Some c' \<and> wf_cache c' \<and> ages_distinct m c'"
proof -
  let ?c1 = "c\<lparr>reads := reads c + 1\<rparr>"
  have "wf_cache ?c1" "ages_distinct (Suc m) ?c1"
    using assms by simp_all
  from load_block_ages [OF this, of "next_address c a"] assms show ?thesis
    by (auto simp add: prefetch_next_ok ages_distinct_mono)
qed

lemma update_lru_ages:
  assumes "wf_cache c" "ages_distinct (Suc m) c" "unat s < length (lines c)"
  shows "\<exists>c'. update_lru_on_access c s l = Some c' \<and> wf_cache c' \<and> ages_distinct m c'"
  using assms set_ages_aged [OF ages_distinct_the_set [OF assms(2,3)], of l]
  by (simp add: update_lru_on_access_ok wf_put_set ages_distinct_put_set ages_distinct_mono)

lemma access_ages:
  assumes "wf_cache c" "ages_distinct (Suc (Suc m)) c"
  shows "\<exists>c'. access pf c r = Some c' \<and> wf_cache c' \<and> ages_distinct m c'"
proof -
  obtain l where fl: "find_line c (snd r) = Some (l, index_of c (snd r))"
    using find_line_total [OF assms(1)] by blast
  have s: "unat (index_of c (snd r)) < length (lines c)"
    using assms(1) by (rule wf_index)
  have d1: "ages_distinct (Suc m) c"
    using assms(2) by (rule ages_distinct_mono)
  have d0: "ages_distinct m c"
    using d1 by (rule ages_distinct_mono)
  have rd: "\<exists>c'. simulate_read c (snd r) pf = Some c' \<and> wf_cache c' \<and> ages_distinct m c'"
  proof (cases "l = - 1")
    case False
    let ?c0 = "c\<lparr>hits := hits c + 1\<rparr>"
    have "wf_cache ?c0" "ages_distinct (Suc m) ?c0" "unat (index_of c (snd r)) < length (lines ?c0)"
      using assms(1) d1 s by simp_all
    from update_lru_ages [OF this, of l] fl False assms(1) show ?thesis
      by (simp add: simulate_read_hit)
  next
    case True
    let ?c0 = "c\<lparr>misses := misses c + 1, reads := reads c + 1\<rparr>"
    have "wf_cache ?c0" "ages_distinct (Suc (Suc m)) ?c0"
      using assms by simp_all
    from load_block_ages [OF this, of "snd r"] obtain c1 where
      c1: "load_block ?c0 (snd r) = Some c1" "wf_cache c1" "ages_distinct (Suc m) c1"
      by blast
    from prefetch_next_ages [OF c1(2,3), of "snd r"] c1 fl True show ?thesis
      by (auto simp add: simulate_read_miss ages_distinct_mono)
  qed
  have wr: "\<exists>c'. simulate_write c (snd r) pf = Some c' \<and> wf_cache c' \<and> ages_distinct m c'"
  proof (cases "l = - 1")
    case False
    let ?c0 = "c\<lparr>hits := hits c + 1, writes := writes c + 1\<rparr>"
    have "wf_cache ?c0" "ages_distinct (Suc m) ?c0" "unat (index_of c (snd r)) < length (lines ?c0)"
      using assms(1) d1 s by simp_all
    from update_lru_ages [OF this, of l] fl False show ?thesis
      by (simp add: simulate_write_hit)
  next
    case True
    let ?c0 = "c\<lparr>misses := misses c + 1, reads := reads c + 1\<rparr>"
    have "wf_cache ?c0" "ages_distinct (Suc (Suc m)) ?c0"
      using assms by simp_all
    from load_block_ages [OF this, of "snd r"] obtain c1 where
      c1: "load_block ?c0 (snd r) = Some c1" "wf_cache c1" "ages_distinct (Suc m) c1"
      by blast
    let ?c2 = "c1\<lparr>writes := writes c1 + 1\<rparr>"
    have "wf_cache ?c2" "ages_distinct (Suc m) ?c2"
      using c1 by simp_all
    from prefetch_next_ages [OF this, of "snd r"] c1 fl True show ?thesis
      by (auto simp add: simulate_write_miss ages_distinct_mono)
  qed
  show ?thesis
    using rd wr assms(1) d0 by (simp add: access_def)
qed

lemma run_trace_ages:
  assumes "wf_cache c" "ages_distinct (2 * length tr + m) c"
  shows "\<exists>c'. run_trace pf c tr = Some c' \<and> wf_cache c' \<and> ages_distinct m c'"
  using assms
proof (induction tr arbitrary: c)
  case Nil
  then show ?case by simp
next
  case (Cons r tr)
  have "ages_distinct (Suc (Suc (2 * length tr + m))) c"
    using Cons.prems(2) by simp
  from access_ages [OF Cons.prems(1) this, of pf r] obtain c1 where
    c1: "access pf c r = Some c1" "wf_cache c1" "ages_distinct (2 * length tr + m) c1"
    by blast
  from Cons.IH [OF c1(2,3)] c1(1) show ?case
    by simp
qed

lemma ages_distinct_fresh:
  assumes "\<forall>S \<in> set (lines c). \<forall>l \<in> set S. valid l = 0" "m < 2 ^ 64"
  shows "ages_distinct m c"
  using assms by (auto simp add: ages_distinct_def set_ages_def)

text \<open>
  In a run from a fresh cache that is shorter than \<open>2 ^ 63\<close> records, the valid lines
  of a set never share an age, under either policy.
\<close>

lemma fresh_run_ages_distinct:
  assumes "b + k \<le> a" "a \<le> 30" "2 * length tr < 2 ^ 64"
  shows "\<exists>c0 c. create_cache (2 ^ a) (2 ^ k) (2 ^ b) pol = Some c0 \<and> run_trace pf c0 tr = Some c
           \<and> ages_distinct 0 c"
proof -
  from create_cache_fresh [OF assms(1,2), of pol] obtain c0 where
    c0: "create_cache (2 ^ a) (2 ^ k) (2 ^ b) pol = Some c0" "wf_cache c0"
    by blast
  have "ages_distinct (2 * length tr + 0) c0"
    using create_cache_lines [OF c0(1)] assms(3) by (intro ages_distinct_fresh) simp_all
  from run_trace_ages [OF c0(2) this, of pf] c0(1) show ?thesis
    by blast
qed

section \<open>Properties of the specification\<close>

subsection \<open>Address decomposition\<close>

text \<open>
  C4. For every address and every geometry whose bit widths are valid shift amounts (as
  the logarithms of a power-of-two block size and number of sets are), \<open>get_tag\<close> and
  \<open>get_set_index\<close> are defined, and shifting the tag left by
  \<open>block_bits + set_bits\<close>, the set index left by \<open>block_bits\<close>, and or-ing both with
  the low \<open>block_bits\<close> bits of the address gives the address back.
\<close>

theorem address_roundtrip:
  assumes "geometry_ok c"
  shows "\<exists>t s. get_tag c a = Some t \<and> get_set_index c a = Some s
           \<and> push_bit (nat (block_bits c + set_bits c)) t OR push_bit (nat (block_bits c)) s
                OR (a AND mask (nat (block_bits c))) = a"
  using assms recombine_parts [of c a]
  by (simp add: get_tag_ok get_set_index_ok geometry_ok_def)

theorem address_roundtrip_witness:
  "geometry_ok direct_fifo \<and>
   (\<exists>t s. get_tag direct_fifo 77 = Some t \<and> get_set_index direct_fifo 77 = Some s
           \<and> push_bit (nat (block_bits direct_fifo + set_bits direct_fifo)) t
                OR push_bit (nat (block_bits direct_fifo)) s
                OR (77 AND mask (nat (block_bits direct_fifo))) = 77)"
proof -
  have h: "geometry_ok direct_fifo"
    by code_simp
  show ?thesis
    using h address_roundtrip [OF h, of 77] by simp
qed

subsection \<open>Slot selection\<close>

text \<open>
  C10. On a well-formed cache (at least one line per set, \<open>2 ^ set_bits\<close> sets of
  \<open>set_lines\<close> lines each) and for every address, the scan of \<open>load_block\<close> ends
  with a replacement index \<open>r\<close> in \<open>0 \<le> r < set_lines\<close>, never the initial \<open>-1\<close>,
  the line it then writes exists, and \<open>load_block\<close> returns.
\<close>

theorem load_block_slot_in_range:
  assumes "wf_cache c"
  shows "\<exists>s r l c'. get_set_index c a = Some s \<and> select_loop c s 0 (- 1) 0 = Some r
           \<and> 0 \<le> r \<and> r < set_lines c \<and> line_at c s r = Some l \<and> load_block c a = Some c'"
proof -
  let ?s = "index_of c a"
  let ?S = "the_set c ?s"
  have s: "unat ?s < length (lines c)"
    using assms by (rule wf_index)
  have len: "int (length ?S) = set_lines c"
    using assms s by (rule wf_set_length)
  have r: "0 \<le> victim ?S" "victim ?S < int (length ?S)"
    using victim_range [of ?S] wf_set_nonempty [OF assms s] by simp_all
  have "line_at c ?s (int (nat (victim ?S))) = Some (?S ! nat (victim ?S))"
    using s r by (intro line_at_in) simp_all
  then have "line_at c ?s (victim ?S) = Some (?S ! nat (victim ?S))"
    using r by simp
  then show ?thesis
    using assms s r len
    by (simp add: get_set_index_ok wf_geometry select_loop_ok load_block_ok)
qed

theorem load_block_slot_in_range_witness:
  "wf_cache direct_fifo \<and>
   (\<exists>s r l c'. get_set_index direct_fifo 4 = Some s \<and> select_loop direct_fifo s 0 (- 1) 0 = Some r
           \<and> 0 \<le> r \<and> r < set_lines direct_fifo \<and> line_at direct_fifo s r = Some l
           \<and> load_block direct_fifo 4 = Some c') \<and>
   wf_cache tied_cache \<and>
   (\<exists>s r l c'. get_set_index tied_cache 28 = Some s \<and> select_loop tied_cache s 0 (- 1) 0 = Some r
           \<and> 0 \<le> r \<and> r < set_lines tied_cache \<and> line_at tied_cache s r = Some l
           \<and> load_block tied_cache 28 = Some c') \<and>
   wf_cache warm_lru \<and>
   (\<exists>s r l c'. get_set_index warm_lru 16 = Some s \<and> select_loop warm_lru s 0 (- 1) 0 = Some r
           \<and> 0 \<le> r \<and> r < set_lines warm_lru \<and> line_at warm_lru s r = Some l
           \<and> load_block warm_lru 16 = Some c')"
proof -
  have h: "wf_cache direct_fifo"
    by code_simp
  have h2: "wf_cache tied_cache"
    by code_simp
  have h3: "wf_cache warm_lru"
    by code_simp
  show ?thesis
    using h h2 h3 load_block_slot_in_range [OF h, of 4] load_block_slot_in_range [OF h2, of 28]
      load_block_slot_in_range [OF h3, of 16]
    by simp
qed

subsection \<open>Scenarios\<close>

text \<open>
  C9. Capacity 32, associativity 1, block size 4, FIFO, no prefetch: after the reads of
  0x0 and 0x4 there are 2 misses and no hit; after the third read (0x0 again) the
  statistics are memory reads 2, memory writes 0, hits 1, misses 2.
\<close>

theorem scenario_direct_mapped_fifo:
  "simulation 32 1 4 POLICY_FIFO 0 [(CHR ''R'', 0), (CHR ''R'', 4)] = Some (2, 0, 0, 2) \<and>
   simulation 32 1 4 POLICY_FIFO 0 [(CHR ''R'', 0), (CHR ''R'', 4), (CHR ''R'', 0)]
     = Some (2, 0, 1, 2)"
  by code_simp

subsection \<open>Counters\<close>

text \<open>
  C5. From any well-formed cache, and for any trace short enough that the 64-bit
  counters do not wrap around, the run returns, \<open>hits + misses\<close> has grown by exactly
  the number of demand accesses of the trace (so it is that number for a fresh cache),
  and none of the four counters has decreased. A single access is a trace of length
  one.
\<close>

theorem counters_monotone:
  assumes "wf_cache c"
    and "unat (hits c) + unat (misses c) + length tr < 2 ^ 64"
    and "unat (reads c) + 2 * length tr < 2 ^ 64"
    and "unat (writes c) + length tr < 2 ^ 64"
  shows "\<exists>c'. run_trace pf c tr = Some c'
      \<and> unat (hits c') + unat (misses c') = unat (hits c) + unat (misses c) + demand_count tr
      \<and> hits c \<le> hits c' \<and> misses c \<le> misses c' \<and> reads c \<le> reads c' \<and> writes c \<le> writes c'"
  using run_trace_counters [OF assms, of pf]
  by (auto simp add: word_le_nat_alt)

theorem counters_monotone_witness:
  "wf_cache direct_fifo
   \<and> unat (hits direct_fifo) + unat (misses direct_fifo)
        + length [(CHR ''R'', 0 :: ulong), (CHR ''W'', 4), (CHR ''x'', 8)] < 2 ^ 64
   \<and> unat (reads direct_fifo) + 2 * length [(CHR ''R'', 0 :: ulong), (CHR ''W'', 4), (CHR ''x'', 8)]
        < 2 ^ 64
   \<and> unat (writes direct_fifo) + length [(CHR ''R'', 0 :: ulong), (CHR ''W'', 4), (CHR ''x'', 8)]
        < 2 ^ 64
   \<and> (\<exists>c'. run_trace 1 direct_fifo [(CHR ''R'', 0), (CHR ''W'', 4), (CHR ''x'', 8)] = Some c'
      \<and> unat (hits c') + unat (misses c')
          = unat (hits direct_fifo) + unat (misses direct_fifo)
            + demand_count [(CHR ''R'', 0), (CHR ''W'', 4), (CHR ''x'', 8)]
      \<and> hits direct_fifo \<le> hits c' \<and> misses direct_fifo \<le> misses c'
      \<and> reads direct_fifo \<le> reads c' \<and> writes direct_fifo \<le> writes c')"
proof -
  let ?tr = "[(CHR ''R'', 0 :: ulong), (CHR ''W'', 4), (CHR ''x'', 8)]"
  have h1: "wf_cache direct_fifo"
    by code_simp
  have h2: "unat (hits direct_fifo) + unat (misses direct_fifo) + length ?tr < 2 ^ 64"
    by (simp add: direct_fifo_def)
  have h3: "unat (reads direct_fifo) + 2 * length ?tr < 2 ^ 64"
    by (simp add: direct_fifo_def)
  have h4: "unat (writes direct_fifo) + length ?tr < 2 ^ 64"
    by (simp add: direct_fifo_def)
  show ?thesis
    using h1 h2 h3 h4 counters_monotone [OF h1 h2 h3 h4, of 1] by blast
qed

subsection \<open>Traffic per access\<close>

text \<open>
  A write miss with prefetching enabled counts two memory reads when the following
  block is absent: the demand fetch and the prefetch.
\<close>

theorem write_miss_two_reads:
  "simulation 32 1 4 POLICY_FIFO 1 [(CHR ''W'', 0)] = Some (2, 1, 0, 1)"
  by code_simp

text \<open>
  C6, as the code has it. On a well-formed cache, for the lookup result \<open>i\<close> of the
  address: a read hit changes neither \<open>reads\<close> nor \<open>writes\<close>; a write hit adds one to
  \<open>writes\<close> and nothing to \<open>reads\<close>; a write miss adds one to \<open>writes\<close>, and to \<open>reads\<close>
  it adds one with prefetching disabled, and with prefetching enabled one, or two when
  the following block is absent after the demand load. Additions are modulo \<open>2 ^ 64\<close>.
\<close>

theorem traffic_accounting:
  assumes "wf_cache c" "find_line c a = Some (i, s)"
  shows "\<exists>cr cw. simulate_read c a pf = Some cr \<and> simulate_write c a pf = Some cw
      \<and> (i \<noteq> - 1 \<longrightarrow> reads cr = reads c \<and> writes cr = writes c
                       \<and> reads cw = reads c \<and> writes cw = writes c + 1)
      \<and> (i = - 1 \<longrightarrow> writes cw = writes c + 1
            \<and> (\<exists>c1 j s'. load_block c a = Some c1
                  \<and> find_line c1 (next_address c a) = Some (j, s')
                  \<and> reads cw = reads c + (if pf \<noteq> 0 \<and> j = - 1 then 2 else 1)))"
proof (cases "i = - 1")
  case False
  then show ?thesis
    using simulate_read_frame [OF assms, of pf] simulate_write_frame [OF assms, of pf]
    by auto
next
  case True
  with assms have fl: "find_line c a = Some (- 1, s)"
    by simp
  from write_miss_reads [OF assms(1) fl, of pf] obtain c1 cw j s' where
    *: "load_block c a = Some c1" "find_line c1 (next_address c a) = Some (j, s')"
       "simulate_write c a pf = Some cw" "reads cw = reads c + (if pf \<noteq> 0 \<and> j = - 1 then 2 else 1)"
    by blast
  show ?thesis
    using True * simulate_read_frame [OF assms, of pf] simulate_write_frame [OF assms, of pf]
    by auto
qed

theorem traffic_accounting_witness:
  "wf_cache direct_fifo \<and> find_line direct_fifo 0 = Some (- 1, 0)
   \<and> (\<exists>cr cw. simulate_read direct_fifo 0 1 = Some cr \<and> simulate_write direct_fifo 0 1 = Some cw
      \<and> writes cw = writes direct_fifo + 1
      \<and> (\<exists>c1 j s'. load_block direct_fifo 0 = Some c1
            \<and> find_line c1 (next_address direct_fifo 0) = Some (j, s')
            \<and> reads cw = reads direct_fifo + (if j = - 1 then 2 else 1)))
   \<and> wf_cache tied_cache \<and> find_line tied_cache 40 = Some (0, 0)
   \<and> (\<exists>cr cw. simulate_read tied_cache 40 1 = Some cr \<and> simulate_write tied_cache 40 1 = Some cw
      \<and> reads cr = reads tied_cache \<and> writes cr = writes tied_cache
      \<and> reads cw = reads tied_cache \<and> writes cw = writes tied_cache + 1)"
proof -
  have h1: "wf_cache direct_fifo"
    by code_simp
  have h2: "find_line direct_fifo 0 = Some (- 1, 0)"
    by code_simp
  have h3: "wf_cache tied_cache"
    by code_simp
  have h4: "find_line tied_cache 40 = Some (0, 0)"
    by code_simp
  show ?thesis
    using h1 h2 h3 h4 traffic_accounting [OF h1 h2, of 1] traffic_accounting [OF h3 h4, of 1]
    by simp
qed

subsection \<open>Prefetching and the demand counters\<close>

text \<open>
  Reading 0x0 then 0x4 on the direct-mapped cache: without prefetching both reads
  miss; with prefetching the first miss loads the block of 0x4 as well, and the second
  read hits. On a two-way FIFO cache of 16 bytes, the reads of 8, 4, 12, 16, 20, 4, 16
  count 6 memory reads without prefetching and 5 with it.
\<close>

theorem prefetch_changes_hits:
  "simulation 32 1 4 POLICY_FIFO 0 [(CHR ''R'', 0), (CHR ''R'', 4)] = Some (2, 0, 0, 2) \<and>
   simulation 32 1 4 POLICY_FIFO 1 [(CHR ''R'', 0), (CHR ''R'', 4)] = Some (2, 0, 1, 1) \<and>
   simulation 16 2 4 POLICY_FIFO 0
     [(CHR ''R'', 8), (CHR ''R'', 4), (CHR ''R'', 12), (CHR ''R'', 16), (CHR ''R'', 20),
      (CHR ''R'', 4), (CHR ''R'', 16)] = Some (6, 0, 1, 6) \<and>
   simulation 16 2 4 POLICY_FIFO 1
     [(CHR ''R'', 8), (CHR ''R'', 4), (CHR ''R'', 12), (CHR ''R'', 16), (CHR ''R'', 20),
      (CHR ''R'', 4), (CHR ''R'', 16)] = Some (5, 0, 4, 3)"
  by code_simp

text \<open>
  C2, as the code has it. From the same well-formed cache state, one record processed
  with prefetching leaves \<open>hits\<close>, \<open>misses\<close> and \<open>writes\<close> as the same record
  processed without prefetching does, and \<open>reads\<close> equal or one higher; and over a
  whole trace the sum \<open>hits + misses\<close> and \<open>writes\<close> are the same with and without
  prefetching (\<open>hits\<close> and \<open>misses\<close> taken alone may differ).
\<close>

theorem prefetch_demand_counters:
  assumes "wf_cache c"
  shows "(\<exists>c0 c1. access 0 c r = Some c0 \<and> access pf c r = Some c1
            \<and> hits c1 = hits c0 \<and> misses c1 = misses c0 \<and> writes c1 = writes c0
            \<and> (reads c1 = reads c0 \<or> reads c1 = reads c0 + 1))
       \<and> (\<exists>d0 d1. run_trace 0 c tr = Some d0 \<and> run_trace pf c tr = Some d1
            \<and> hits d1 + misses d1 = hits d0 + misses d0 \<and> writes d1 = writes d0)"
proof -
  obtain i where fl: "find_line c (snd r) = Some (i, index_of c (snd r))"
    using find_line_total [OF assms] by blast
  have A: "\<exists>c0 c1. access 0 c r = Some c0 \<and> access pf c r = Some c1
            \<and> hits c1 = hits c0 \<and> misses c1 = misses c0 \<and> writes c1 = writes c0
            \<and> (reads c1 = reads c0 \<or> reads c1 = reads c0 + 1)"
    using simulate_read_frame [OF assms fl, of pf] simulate_read_frame [OF assms fl, of 0]
      simulate_write_frame [OF assms fl, of pf] simulate_write_frame [OF assms fl, of 0]
    by (auto simp add: access_def split: if_splits)
  have B: "\<exists>d0 d1. run_trace 0 c tr = Some d0 \<and> run_trace pf c tr = Some d1
            \<and> hits d1 + misses d1 = hits d0 + misses d0 \<and> writes d1 = writes d0"
    using run_trace_sums [OF assms, of 0 tr] run_trace_sums [OF assms, of pf tr]
    by auto
  show ?thesis
    using A B by blast
qed

theorem prefetch_demand_counters_witness:
  "wf_cache direct_fifo
   \<and> (\<exists>c0 c1. access 0 direct_fifo (CHR ''R'', 0) = Some c0 \<and> access 1 direct_fifo (CHR ''R'', 0) = Some c1
            \<and> hits c1 = hits c0 \<and> misses c1 = misses c0 \<and> writes c1 = writes c0
            \<and> (reads c1 = reads c0 \<or> reads c1 = reads c0 + 1))
   \<and> (\<exists>d0 d1. run_trace 0 direct_fifo [(CHR ''R'', 0), (CHR ''R'', 4)] = Some d0
            \<and> run_trace 1 direct_fifo [(CHR ''R'', 0), (CHR ''R'', 4)] = Some d1
            \<and> hits d1 + misses d1 = hits d0 + misses d0 \<and> writes d1 = writes d0)"
proof -
  have h: "wf_cache direct_fifo"
    by code_simp
  show ?thesis
    using h prefetch_demand_counters [OF h, of "(CHR ''R'', 0)" 1 "[(CHR ''R'', 0), (CHR ''R'', 4)]"]
    by simp
qed

subsection \<open>Tag uniqueness\<close>

text \<open>
  C3. For a power-of-two geometry (capacity \<open>2 ^ a\<close> at most \<open>2 ^ 30\<close>, associativity
  \<open>2 ^ k\<close>, block size \<open>2 ^ b\<close>, at least one set), \<open>create_cache\<close> returns a cache
  from which every trace, with or without prefetching, runs to a state in which no set
  holds two valid lines with the same tag; and from that state each operation
  (\<open>simulate_read\<close>, \<open>simulate_write\<close>, \<open>prefetch_next\<close>) returns a state with the
  same property.
\<close>

theorem tags_unique_invariant:
  assumes "b + k \<le> a" "a \<le> 30"
  shows "\<exists>c0. create_cache (2 ^ a) (2 ^ k) (2 ^ b) pol = Some c0 \<and>
     (\<forall>pf tr. \<exists>c. run_trace pf c0 tr = Some c \<and> tags_unique c \<and>
        (\<forall>ad. (\<exists>c1. simulate_read c ad pf = Some c1 \<and> tags_unique c1) \<and>
              (\<exists>c2. simulate_write c ad pf = Some c2 \<and> tags_unique c2) \<and>
              (\<exists>c3. prefetch_next c ad = Some c3 \<and> tags_unique c3)))"
proof -
  from create_cache_fresh [OF assms, of pol] obtain c0 where
    c0: "create_cache (2 ^ a) (2 ^ k) (2 ^ b) pol = Some c0" "wf_cache c0" "tags_unique c0"
    by blast
  have "\<exists>c. run_trace pf c0 tr = Some c \<and> tags_unique c \<and>
        (\<forall>ad. (\<exists>c1. simulate_read c ad pf = Some c1 \<and> tags_unique c1) \<and>
              (\<exists>c2. simulate_write c ad pf = Some c2 \<and> tags_unique c2) \<and>
              (\<exists>c3. prefetch_next c ad = Some c3 \<and> tags_unique c3))" for pf tr
  proof -
    from run_trace_unique [OF c0(2,3), of pf tr] obtain c where
      c: "run_trace pf c0 tr = Some c" "wf_cache c" "tags_unique c"
      by blast
    show ?thesis
      using c simulate_read_unique [OF c(2,3), of _ pf] simulate_write_unique [OF c(2,3), of _ pf]
        prefetch_next_unique [OF c(2,3)]
      by blast
  qed
  with c0(1) show ?thesis
    by blast
qed

theorem tags_unique_invariant_witness:
  "(2 :: nat) + 0 \<le> 5 \<and> (5 :: nat) \<le> 30 \<and>
   (\<exists>c0. create_cache (2 ^ 5) (2 ^ 0) (2 ^ 2) POLICY_LRU = Some c0 \<and>
      (\<exists>c. run_trace 1 c0 [(CHR ''R'', 0), (CHR ''W'', 32), (CHR ''R'', 4)] = Some c \<and> tags_unique c)) \<and>
   (2 :: nat) + 2 \<le> 4 \<and> (4 :: nat) \<le> 30 \<and>
   (\<exists>c0. create_cache (2 ^ 4) (2 ^ 2) (2 ^ 2) POLICY_LRU = Some c0 \<and>
      (\<exists>c. run_trace 1 c0 [(CHR ''R'', 0), (CHR ''R'', 8), (CHR ''W'', 16), (CHR ''R'', 0),
                              (CHR ''W'', 32)] = Some c \<and> tags_unique c))"
proof -
  have h1: "(2 :: nat) + 0 \<le> 5"
    by simp
  have h2: "(5 :: nat) \<le> 30"
    by simp
  have h3: "(2 :: nat) + 2 \<le> 4"
    by simp
  have h4: "(4 :: nat) \<le> 30"
    by simp
  show ?thesis
    using h1 h2 h3 h4 tags_unique_invariant [OF h1 h2, of POLICY_LRU]
      tags_unique_invariant [OF h3 h4, of POLICY_LRU]
    by blast
qed

subsection \<open>Eviction\<close>




subsection \<open>LRU\<close>





subsection \<open>FIFO\<close>

text \<open>
  C7. For a power-of-two geometry and the FIFO policy, in every state \<open>c\<close> reached
  from the fresh cache by a trace (with or without prefetching), with \<open>h\<close> the
  insertion history of that run: a hit, by a read or a write, returns \<open>c\<close> with only
  the counters changed, so that no line's valid bit, tag or age changes, the aging
  step returns \<open>c\<close> itself, and the history is unchanged; of two valid lines of a
  set, the one inserted earlier has the strictly higher age; and when all lines of a
  set are valid, the line the scan of \<open>load_block\<close> selects is one inserted no later
  than any other line of the set.
\<close>

theorem fifo_hits_keep_insertion_order:
  assumes "b + k \<le> a" "a \<le> 30"
  shows "\<exists>c0. create_cache (2 ^ a) (2 ^ k) (2 ^ b) POLICY_FIFO = Some c0 \<and>
    (\<forall>pf tr. \<exists>c h. run_trace pf c0 tr = Some c
       \<and> record_trace pf c0 (fresh_history c0) tr = Some h
       \<and> (\<forall>ad l s. find_line c ad = Some (l, s) \<and> l \<noteq> - 1 \<longrightarrow>
              update_lru_on_access c s l = Some c
            \<and> simulate_read c ad pf = Some (c\<lparr>hits := hits c + 1\<rparr>)
            \<and> simulate_write c ad pf = Some (c\<lparr>hits := hits c + 1, writes := writes c + 1\<rparr>)
            \<and> record_read c h ad pf = Some h \<and> record_write c h ad pf = Some h)
       \<and> (\<forall>s < length (lines c). \<forall>i < length (lines c ! s). \<forall>j < length (lines c ! s).
              valid (lines c ! s ! i) \<noteq> 0 \<and> valid (lines c ! s ! j) \<noteq> 0
              \<and> fst (h ! s) ! i < fst (h ! s) ! j
              \<longrightarrow> age (lines c ! s ! j) < age (lines c ! s ! i))
       \<and> (\<forall>s. unat s < length (lines c) \<and> list_all (\<lambda>x. valid x \<noteq> 0) (lines c ! unat s) \<longrightarrow>
              (\<exists>r. select_loop c s 0 (- 1) 0 = Some r \<and> 0 \<le> r \<and> r < set_lines c
                 \<and> (\<forall>j < length (lines c ! unat s).
                       fst (h ! unat s) ! nat r \<le> fst (h ! unat s) ! j))))"
proof -
  from create_cache_fresh [OF assms, of POLICY_FIFO] obtain c0 where
    c0: "create_cache (2 ^ a) (2 ^ k) (2 ^ b) POLICY_FIFO = Some c0" "wf_cache c0"
      "policy c0 = POLICY_FIFO"
    by blast
  have nl: "policy c0 \<noteq> POLICY_LRU"
    using c0(3) by (simp add: POLICY_FIFO_def POLICY_LRU_def)
  have f0: "fifo_inv c0 (fresh_history c0)"
    using create_cache_lines [OF c0(1)] by (rule fifo_inv_fresh)
  have "\<exists>c h. run_trace pf c0 tr = Some c
       \<and> record_trace pf c0 (fresh_history c0) tr = Some h
       \<and> (\<forall>ad l s. find_line c ad = Some (l, s) \<and> l \<noteq> - 1 \<longrightarrow>
              update_lru_on_access c s l = Some c
            \<and> simulate_read c ad pf = Some (c\<lparr>hits := hits c + 1\<rparr>)
            \<and> simulate_write c ad pf = Some (c\<lparr>hits := hits c + 1, writes := writes c + 1\<rparr>)
            \<and> record_read c h ad pf = Some h \<and> record_write c h ad pf = Some h)
       \<and> (\<forall>s < length (lines c). \<forall>i < length (lines c ! s). \<forall>j < length (lines c ! s).
              valid (lines c ! s ! i) \<noteq> 0 \<and> valid (lines c ! s ! j) \<noteq> 0
              \<and> fst (h ! s) ! i < fst (h ! s) ! j
              \<longrightarrow> age (lines c ! s ! j) < age (lines c ! s ! i))
       \<and> (\<forall>s. unat s < length (lines c) \<and> list_all (\<lambda>x. valid x \<noteq> 0) (lines c ! unat s) \<longrightarrow>
              (\<exists>r. select_loop c s 0 (- 1) 0 = Some r \<and> 0 \<le> r \<and> r < set_lines c
                 \<and> (\<forall>j < length (lines c ! unat s).
                       fst (h ! unat s) ! nat r \<le> fst (h ! unat s) ! j)))" for pf tr
  proof -
    from run_trace_fifo [OF c0(2) nl f0, of pf tr] obtain c h where
      ch: "run_trace pf c0 tr = Some c" "record_trace pf c0 (fresh_history c0) tr = Some h"
        "wf_cache c" "fifo_inv c h" "policy c = policy c0"
      by blast
    have pc: "policy c \<noteq> POLICY_LRU"
      using ch(5) nl by simp
    have frame: "\<forall>ad l s. find_line c ad = Some (l, s) \<and> l \<noteq> - 1 \<longrightarrow>
              update_lru_on_access c s l = Some c
            \<and> simulate_read c ad pf = Some (c\<lparr>hits := hits c + 1\<rparr>)
            \<and> simulate_write c ad pf = Some (c\<lparr>hits := hits c + 1, writes := writes c + 1\<rparr>)
            \<and> record_read c h ad pf = Some h \<and> record_write c h ad pf = Some h"
    proof (intro allI impI)
      fix ad l s
      assume "find_line c ad = Some (l, s) \<and> l \<noteq> - 1"
      then have fl: "find_line c ad = Some (l, s)" and l: "l \<noteq> - 1"
        by simp_all
      show "update_lru_on_access c s l = Some c
            \<and> simulate_read c ad pf = Some (c\<lparr>hits := hits c + 1\<rparr>)
            \<and> simulate_write c ad pf = Some (c\<lparr>hits := hits c + 1, writes := writes c + 1\<rparr>)
            \<and> record_read c h ad pf = Some h \<and> record_write c h ad pf = Some h"
        using fifo_hit [OF ch(3) pc fl l] by simp
    qed
    have order: "\<forall>s < length (lines c). \<forall>i < length (lines c ! s). \<forall>j < length (lines c ! s).
              valid (lines c ! s ! i) \<noteq> 0 \<and> valid (lines c ! s ! j) \<noteq> 0
              \<and> fst (h ! s) ! i < fst (h ! s) ! j
              \<longrightarrow> age (lines c ! s ! j) < age (lines c ! s ! i)"
      using fifo_inv_order [OF ch(4)] by blast
    have vict: "\<forall>s. unat s < length (lines c) \<and> list_all (\<lambda>x. valid x \<noteq> 0) (lines c ! unat s) \<longrightarrow>
              (\<exists>r. select_loop c s 0 (- 1) 0 = Some r \<and> 0 \<le> r \<and> r < set_lines c
                 \<and> (\<forall>j < length (lines c ! unat s).
                       fst (h ! unat s) ! nat r \<le> fst (h ! unat s) ! j))"
      using fifo_inv_victim [OF ch(3,4)] by blast
    show ?thesis
      using ch(1,2) frame order vict by blast
  qed
  with c0(1) show ?thesis
    by blast
qed

theorem fifo_hits_keep_insertion_order_witness:
  "(2 :: nat) + 2 \<le> 4 \<and> (4 :: nat) \<le> 30 \<and>
   (\<exists>c0. create_cache (2 ^ 4) (2 ^ 2) (2 ^ 2) POLICY_FIFO = Some c0 \<and>
    (\<exists>c h. run_trace 0 c0 [(CHR ''R'', 0), (CHR ''R'', 4), (CHR ''R'', 0), (CHR ''R'', 8),
                             (CHR ''R'', 12), (CHR ''R'', 16)] = Some c
       \<and> record_trace 0 c0 (fresh_history c0)
            [(CHR ''R'', 0), (CHR ''R'', 4), (CHR ''R'', 0), (CHR ''R'', 8),
             (CHR ''R'', 12), (CHR ''R'', 16)] = Some h
       \<and> (\<forall>ad l s. find_line c ad = Some (l, s) \<and> l \<noteq> - 1 \<longrightarrow>
              update_lru_on_access c s l = Some c
            \<and> simulate_read c ad 0 = Some (c\<lparr>hits := hits c + 1\<rparr>)
            \<and> simulate_write c ad 0 = Some (c\<lparr>hits := hits c + 1, writes := writes c + 1\<rparr>)
            \<and> record_read c h ad 0 = Some h \<and> record_write c h ad 0 = Some h)
       \<and> (\<forall>s < length (lines c). \<forall>i < length (lines c ! s). \<forall>j < length (lines c ! s).
              valid (lines c ! s ! i) \<noteq> 0 \<and> valid (lines c ! s ! j) \<noteq> 0
              \<and> fst (h ! s) ! i < fst (h ! s) ! j
              \<longrightarrow> age (lines c ! s ! j) < age (lines c ! s ! i))
       \<and> (\<forall>s. unat s < length (lines c) \<and> list_all (\<lambda>x. valid x \<noteq> 0) (lines c ! unat s) \<longrightarrow>
              (\<exists>r. select_loop c s 0 (- 1) 0 = Some r \<and> 0 \<le> r \<and> r < set_lines c
                 \<and> (\<forall>j < length (lines c ! unat s).
                       fst (h ! unat s) ! nat r \<le> fst (h ! unat s) ! j)))))"
proof -
  have h1: "(2 :: nat) + 2 \<le> 4"
    by simp
  have h2: "(4 :: nat) \<le> 30"
    by simp
  show ?thesis
    using h1 h2 fifo_hits_keep_insertion_order [OF h1 h2] by blast
qed

end
